theory Spec2Isabelle
  imports Main
begin

section \<open>Python strings\<close>

text \<open>
  A Python \<open>str\<close> is modelled as a \<^typ>\<open>string\<close>; one \<^typ>\<open>char\<close> stands for one
  code point of the text (code points below 256).  Python's \<open>None\<close> is \<^term>\<open>None\<close>.
\<close>

definition isspace :: "char \<Rightarrow> bool" where
  \<comment> \<open>\<open>str.isspace\<close> on one code point, which is also the class \<open>\s\<close> of \<open>re\<close> on \<open>str\<close> patterns:
      TAB, LF, VT, FF, CR, FS, GS, RS, US, SPACE, NEL and NBSP.\<close>
  "isspace c = (c \<in> set [CHR 0x09, CHR 0x0A, CHR 0x0B, CHR 0x0C, CHR 0x0D,
                           CHR 0x1C, CHR 0x1D, CHR 0x1E, CHR 0x1F, CHR 0x20,
                           CHR 0x85, CHR 0xA0])"

definition strip_chars :: "(char \<Rightarrow> bool) \<Rightarrow> string \<Rightarrow> string" where
  \<comment> \<open>\<open>s.strip(chars)\<close>: drop the leading and the trailing characters that are in the set.\<close>
  "strip_chars P s = rev (dropWhile P (rev (dropWhile P s)))"

definition strip :: "string \<Rightarrow> string" where
  \<comment> \<open>\<open>s.strip()\<close>\<close>
  "strip s = strip_chars isspace s"

definition startswith :: "string \<Rightarrow> string \<Rightarrow> bool" where
  \<comment> \<open>\<open>s.startswith(p)\<close>\<close>
  "startswith s p = (take (length p) s = p)"

definition endswith :: "string \<Rightarrow> string \<Rightarrow> bool" where
  \<comment> \<open>\<open>s.endswith(p)\<close>\<close>
  "endswith s p = (length p \<le> length s \<and> drop (length s - length p) s = p)"

fun join :: "string \<Rightarrow> string list \<Rightarrow> string" where
  \<comment> \<open>\<open>sep.join(ws)\<close>\<close>
  "join sep [] = []"
| "join sep [w] = w"
| "join sep (w # ws) = w @ sep @ join sep ws"

section \<open>Tokenizer\<close>

text \<open>
  \<open>re.findall(r'(<[^>]+>|![^\s;]+|[^\s;]+|;)', line)\<close>.  The four alternatives are tried in
  order at the current position; each of them is deterministic, because a greedy class
  repetition followed by a character outside the class cannot match after backtracking.
  A match is returned with the text after it.
\<close>

definition word_char :: "char \<Rightarrow> bool" where
  \<comment> \<open>the class \<open>[^\s;]\<close>\<close>
  "word_char c = (\<not> isspace c \<and> c \<noteq> CHR '';'')"

definition match_bracket :: "string \<Rightarrow> (string \<times> string) option" where
  \<comment> \<open>\<open><[^>]+>\<close>\<close>
  "match_bracket s =
     (case s of
        [] \<Rightarrow> None
      | c # r \<Rightarrow>
          if c = CHR ''<'' then
            (let body = takeWhile (\<lambda>x. x \<noteq> CHR ''>'') r;
                 after = dropWhile (\<lambda>x. x \<noteq> CHR ''>'') r
             in if body \<noteq> [] \<and> after \<noteq> [] then Some (c # body @ [CHR ''>''], tl after)
                else None)
          else None)"

definition match_antonym :: "string \<Rightarrow> (string \<times> string) option" where
  \<comment> \<open>\<open>![^\s;]+\<close>\<close>
  "match_antonym s =
     (case s of
        [] \<Rightarrow> None
      | c # r \<Rightarrow>
          if c = CHR ''!'' \<and> takeWhile word_char r \<noteq> []
          then Some (c # takeWhile word_char r, dropWhile word_char r)
          else None)"

definition match_word :: "string \<Rightarrow> (string \<times> string) option" where
  \<comment> \<open>\<open>[^\s;]+\<close>\<close>
  "match_word s =
     (if takeWhile word_char s \<noteq> [] then Some (takeWhile word_char s, dropWhile word_char s)
      else None)"

definition match_semicolon :: "string \<Rightarrow> (string \<times> string) option" where
  \<comment> \<open>\<open>;\<close>\<close>
  "match_semicolon s =
     (case s of [] \<Rightarrow> None | c # r \<Rightarrow> if c = CHR '';'' then Some ([c], r) else None)"

definition match_token :: "string \<Rightarrow> (string \<times> string) option" where
  \<comment> \<open>the alternation, first alternative that matches\<close>
  "match_token s =
     (case match_bracket s of
        Some m \<Rightarrow> Some m
      | None \<Rightarrow>
          (case match_antonym s of
             Some m \<Rightarrow> Some m
           | None \<Rightarrow>
               (case match_word s of
                  Some m \<Rightarrow> Some m
                | None \<Rightarrow> match_semicolon s)))"

lemma match_bracket_shorter: "match_bracket s = Some (t, r) \<Longrightarrow> length r < length s"
proof -
  assume a: "match_bracket s = Some (t, r)"
  have le: "length (tl (dropWhile P xs)) \<le> length xs" for P and xs :: string
    using length_dropWhile_le [of P xs] by simp
  from a show ?thesis
    using le [of "\<lambda>x. x \<noteq> CHR ''>''" "tl s"]
    by (auto simp: match_bracket_def Let_def less_Suc_eq_le split: list.splits if_splits)
qed

lemma match_antonym_shorter: "match_antonym s = Some (t, r) \<Longrightarrow> length r < length s"
  by (auto simp: match_antonym_def less_Suc_eq_le length_dropWhile_le
      split: list.splits if_splits)

lemma match_word_shorter: "match_word s = Some (t, r) \<Longrightarrow> length r < length s"
proof -
  assume a: "match_word s = Some (t, r)"
  then have "takeWhile word_char s \<noteq> []" and r: "r = dropWhile word_char s"
    by (auto simp: match_word_def split: if_splits)
  then have "length (takeWhile word_char s) > 0" by simp
  moreover have "length (takeWhile word_char s) + length (dropWhile word_char s) = length s"
    by (metis length_append takeWhile_dropWhile_id)
  ultimately show ?thesis unfolding r by linarith
qed

lemma match_semicolon_shorter: "match_semicolon s = Some (t, r) \<Longrightarrow> length r < length s"
  by (auto simp: match_semicolon_def split: list.splits if_splits)

lemma match_token_shorter: "match_token s = Some (t, r) \<Longrightarrow> length r < length s"
  by (auto simp: match_token_def split: option.splits
      dest: match_bracket_shorter match_antonym_shorter match_word_shorter
        match_semicolon_shorter)

function findall :: "string \<Rightarrow> string list" where
  \<comment> \<open>the scan of \<open>re.findall\<close>: the leftmost match, then on from its end; where nothing
      matches, one character on\<close>
  "findall [] = []"
| "findall (c # r) =
     (case match_token (c # r) of
        Some (t, rest) \<Rightarrow> t # findall rest
      | None \<Rightarrow> findall r)"
  by pat_completeness auto
termination
  by (relation "measure length") (auto dest: match_token_shorter)

declare findall.simps [simp del]

section \<open>Anchor-line parser\<close>

type_synonym anchor_state =
  "string option \<times> string list \<times> string list \<times> string list \<times> string list"
  \<comment> \<open>\<open>anchor\<close>, \<open>synonyms\<close>, \<open>antonyms\<close>, \<open>meanings\<close>, \<open>cur_meaning\<close>\<close>

fun anchor_step :: "anchor_state \<Rightarrow> string \<Rightarrow> anchor_state" where
  \<comment> \<open>the body of \<open>for t in tokens\<close>\<close>
  "anchor_step (anchor, synonyms, antonyms, meanings, cur_meaning) t =
     (if t = '';'' then
        (if cur_meaning \<noteq> []
         then (anchor, synonyms, antonyms, meanings @ [strip (join '' '' cur_meaning)], [])
         else (anchor, synonyms, antonyms, meanings, cur_meaning))
      else if anchor = None then
        (let a = strip_chars (\<lambda>c. c \<in> set ''<>!'') t
         in (Some a, synonyms, antonyms, meanings, cur_meaning @ [a]))
      else if startswith t ''!'' then
        (anchor, synonyms, antonyms @ [drop 1 t], meanings, cur_meaning)
      else if startswith t ''<'' \<and> endswith t ''>'' then
        (anchor, synonyms @ [butlast (drop 1 t)], antonyms, meanings,
         cur_meaning @ [butlast (drop 1 t)])
      else
        (anchor, synonyms @ [t], antonyms, meanings, cur_meaning @ [t]))"

definition anchor_finish ::
  "anchor_state \<Rightarrow> string option \<times> string list \<times> string list \<times> string list" where
  \<comment> \<open>the code after the loop\<close>
  "anchor_finish st =
     (case st of (anchor, synonyms, antonyms, meanings, cur_meaning) \<Rightarrow>
        (anchor, synonyms, antonyms,
         if cur_meaning \<noteq> [] then meanings @ [strip (join '' '' cur_meaning)] else meanings))"

definition parse_tokens ::
  "string list \<Rightarrow> string option \<times> string list \<times> string list \<times> string list" where
  "parse_tokens tokens = anchor_finish (foldl anchor_step (None, [], [], [], []) tokens)"

definition parse_anchor_line ::
  "string \<Rightarrow> string option \<times> string list \<times> string list \<times> string list" where
  "parse_anchor_line line = parse_tokens (findall line)"

section \<open>Root-derivation parser\<close>

record derived_word =
  word :: string
  root :: string

definition match_root :: "string \<Rightarrow> (string \<times> string) option" where
  \<comment> \<open>\<open>re.match(r'\(([^)]+)\):\s*(.*)', s)\<close>: the groups 1 and 2 of the match.  \<open>\s*\<close> takes
      all the white space and \<open>.*\<close> the rest up to a line feed, so no backtracking occurs.\<close>
  "match_root s =
     (case s of
        [] \<Rightarrow> None
      | c # r \<Rightarrow>
          if c = CHR ''('' then
            (let body = takeWhile (\<lambda>x. x \<noteq> CHR '')'') r;
                 after = dropWhile (\<lambda>x. x \<noteq> CHR '')'') r
             in if body \<noteq> [] \<and> startswith after ''):''
                then Some (body, takeWhile (\<lambda>x. x \<noteq> CHR 0x0A) (dropWhile isspace (drop 2 after)))
                else None)
          else None)"

type_synonym block = "string option \<times> string option \<times> derived_word list"
  \<comment> \<open>\<open>root\<close>, \<open>root_meaning\<close>, \<open>derived_words\<close>\<close>

definition parse_derived_block :: "string list \<Rightarrow> block" where
  \<comment> \<open>both branches run the same loop \<open>for w in lines[1:]: if w: ...\<close>\<close>
  "parse_derived_block lines =
     (case lines of
        [] \<Rightarrow> (None, None, [])
      | first # rest \<Rightarrow>
          (case match_root first of
             Some (r, root_meaning) \<Rightarrow>
               (Some r, Some root_meaning,
                map (\<lambda>w. \<lparr>word = w, root = r\<rparr>) (filter (\<lambda>w. w \<noteq> []) rest))
           | None \<Rightarrow>
               (Some first, Some [],
                map (\<lambda>w. \<lparr>word = w, root = first\<rparr>) (filter (\<lambda>w. w \<noteq> []) rest))))"

section \<open>Block scanner\<close>

datatype error = IndexError

definition getitem :: "'a list \<Rightarrow> nat \<Rightarrow> error + 'a" where
  \<comment> \<open>\<open>xs[i]\<close> for an index that is not negative\<close>
  "getitem xs i = (if i < length xs then Inr (xs ! i) else Inl IndexError)"

function block_loop :: "string list \<Rightarrow> nat \<Rightarrow> string list \<Rightarrow> error + nat \<times> string list" where
  \<comment> \<open>\<open>while i < n and not lines[i].strip().startswith('}')\<close>, from the state
      \<open>(i, block_lines)\<close> to the state at the exit\<close>
  "block_loop lines i block_lines =
     (if i < length lines then
        (case getitem lines i of
           Inl e \<Rightarrow> Inl e
         | Inr l \<Rightarrow>
             if \<not> startswith (strip l) ''}'' then
               (case getitem lines i of
                  Inl e \<Rightarrow> Inl e
                | Inr l' \<Rightarrow> block_loop lines (i + 1) (block_lines @ [strip l']))
             else Inr (i, block_lines))
      else Inr (i, block_lines))"
  by pat_completeness auto
termination
  by (relation "measure (\<lambda>(lines, i, block_lines). length lines - i)") auto

function context_loop :: "string list \<Rightarrow> nat \<Rightarrow> string list \<Rightarrow> error + nat \<times> string list" where
  \<comment> \<open>\<open>while i < n and not lines[i].strip().startswith(']')\<close>\<close>
  "context_loop lines i context_lines =
     (if i < length lines then
        (case getitem lines i of
           Inl e \<Rightarrow> Inl e
         | Inr l \<Rightarrow>
             if \<not> startswith (strip l) '']'' then
               (case getitem lines i of
                  Inl e \<Rightarrow> Inl e
                | Inr l' \<Rightarrow>
                    context_loop lines (i + 1)
                      (context_lines @ [strip_chars (\<lambda>c. c = CHR 0x22) (strip l')]))
             else Inr (i, context_lines))
      else Inr (i, context_lines))"
  by pat_completeness auto
termination
  by (relation "measure (\<lambda>(lines, i, context_lines). length lines - i)") auto

declare block_loop.simps [simp del] context_loop.simps [simp del]

lemma block_loop_index: "block_loop lines i acc = Inr (j, b) \<Longrightarrow> i \<le> j"
proof (induction lines i acc rule: block_loop.induct)
  case (1 lines i block_lines)
  show ?case
  proof (cases "i < length lines \<and> \<not> startswith (strip (lines ! i)) ''}''")
    case True
    then have "block_loop lines (i + 1) (block_lines @ [strip (lines ! i)]) = Inr (j, b)"
      using "1.prems" by (subst (asm) block_loop.simps) (simp add: getitem_def)
    then have "i + 1 \<le> j"
      using "1.IH" [of "lines ! i" "lines ! i"] True by (simp add: getitem_def)
    then show ?thesis by simp
  next
    case False
    then show ?thesis
      using "1.prems" by (subst (asm) block_loop.simps) (auto simp: getitem_def split: if_splits)
  qed
qed

lemma context_loop_index: "context_loop lines i acc = Inr (j, b) \<Longrightarrow> i \<le> j"
proof (induction lines i acc rule: context_loop.induct)
  case (1 lines i context_lines)
  show ?case
  proof (cases "i < length lines \<and> \<not> startswith (strip (lines ! i)) '']''")
    case True
    then have "context_loop lines (i + 1)
        (context_lines @ [strip_chars (\<lambda>c. c = CHR 0x22) (strip (lines ! i))]) = Inr (j, b)"
      using "1.prems" by (subst (asm) context_loop.simps) (simp add: getitem_def)
    then have "i + 1 \<le> j"
      using "1.IH" [of "lines ! i" "lines ! i"] True by (simp add: getitem_def)
    then show ?thesis by simp
  next
    case False
    then show ?thesis
      using "1.prems" by (subst (asm) context_loop.simps) (auto simp: getitem_def split: if_splits)
  qed
qed

function scan :: "string list \<Rightarrow> nat \<Rightarrow> block list \<Rightarrow> string list \<Rightarrow> error + block list \<times> string list" where
  \<comment> \<open>the outer \<open>while i < n\<close>, from the state \<open>(i, derived_blocks, contexts)\<close> to the value
      returned\<close>
  "scan lines i derived_blocks contexts =
     (if i < length lines then
        (case getitem lines i of
           Inl e \<Rightarrow> Inl e
         | Inr l \<Rightarrow>
             if startswith (strip l) ''{'' then
               (case block_loop lines (i + 1) [] of
                  Inl e \<Rightarrow> Inl e
                | Inr (j, block_lines) \<Rightarrow>
                    scan lines (j + 1)
                      (if block_lines \<noteq> []
                       then derived_blocks @ [parse_derived_block block_lines]
                       else derived_blocks)
                      contexts)
             else if startswith (strip l) ''['' then
               (case context_loop lines (i + 1) [] of
                  Inl e \<Rightarrow> Inl e
                | Inr (j, context_lines) \<Rightarrow>
                    scan lines (j + 1) derived_blocks (contexts @ context_lines))
             else scan lines (i + 1) derived_blocks contexts)
      else Inr (derived_blocks, contexts))"
  by pat_completeness auto
termination
proof (relation "measure (\<lambda>(lines, i, derived_blocks, contexts). length lines - i)")
  show "wf (measure (\<lambda>(lines, i, derived_blocks, contexts). length lines - i))" by simp
next
  fix lines :: "string list" and i :: nat and derived_blocks :: "block list"
    and contexts :: "string list" and l x2 j block_lines
  assume "i < length lines" and "block_loop lines (i + 1) [] = Inr x2" and "(j, block_lines) = x2"
  then have "i + 1 \<le> j" using block_loop_index [of lines "i + 1" "[]" j block_lines] by simp
  then show "((lines, j + 1,
        if block_lines \<noteq> [] then derived_blocks @ [parse_derived_block block_lines]
        else derived_blocks, contexts), lines, i, derived_blocks, contexts)
      \<in> measure (\<lambda>(lines, i, derived_blocks, contexts). length lines - i)"
    using \<open>i < length lines\<close> by simp
next
  fix lines :: "string list" and i :: nat and derived_blocks :: "block list"
    and contexts :: "string list" and l x2 j context_lines
  assume "i < length lines" and "context_loop lines (i + 1) [] = Inr x2"
    and "(j, context_lines) = x2"
  then have "i + 1 \<le> j" using context_loop_index [of lines "i + 1" "[]" j context_lines] by simp
  then show "((lines, j + 1, derived_blocks, contexts @ context_lines), lines, i, derived_blocks, contexts)
      \<in> measure (\<lambda>(lines, i, derived_blocks, contexts). length lines - i)"
    using \<open>i < length lines\<close> by simp
next
  fix lines :: "string list" and i :: nat and derived_blocks :: "block list"
    and contexts :: "string list"
  assume "i < length lines"
  then show "((lines, i + 1, derived_blocks, contexts), lines, i, derived_blocks, contexts)
      \<in> measure (\<lambda>(lines, i, derived_blocks, contexts). length lines - i)"
    by simp
qed

declare scan.simps [simp del]

definition parse_blocks_and_contexts :: "string list \<Rightarrow> error + block list \<times> string list" where
  "parse_blocks_and_contexts lines = scan lines 0 [] []"

section \<open>Corpus loader\<close>

definition match_blank :: "string \<Rightarrow> string option" where
  \<comment> \<open>\<open>\n\s*\n\<close> at the head of \<open>s\<close>, giving the text after the match: the greedy \<open>\s*\<close> backs
      off to the last line feed of the run of white space that follows the first one\<close>
  "match_blank s =
     (case s of
        [] \<Rightarrow> None
      | c # r \<Rightarrow>
          if c = CHR 0x0A then
            (let run = takeWhile isspace r;
                 k = length (dropWhile (\<lambda>x. x \<noteq> CHR 0x0A) (rev run))
             in if k \<noteq> 0 then Some (drop k r) else None)
          else None)"

lemma match_blank_shorter: "match_blank s = Some r \<Longrightarrow> length r < length s"
  by (cases s) (auto simp: match_blank_def Let_def split: if_splits)

function re_split :: "string \<Rightarrow> string \<Rightarrow> string list" where
  \<comment> \<open>\<open>re.split(r'\n\s*\n', s)\<close>, with the piece read so far as first argument\<close>
  "re_split piece [] = [piece]"
| "re_split piece (c # r) =
     (case match_blank (c # r) of
        Some rest \<Rightarrow> piece # re_split [] rest
      | None \<Rightarrow> re_split (piece @ [c]) r)"
  by pat_completeness auto
termination
  by (relation "measure (\<lambda>(piece, s). length s)") (auto dest: match_blank_shorter)

declare re_split.simps [simp del]

fun str_split :: "char \<Rightarrow> string \<Rightarrow> string list" where
  \<comment> \<open>\<open>s.split(sep)\<close> for a separator of one character\<close>
  "str_split sep [] = [[]]"
| "str_split sep (c # r) =
     (if c = sep then [] # str_split sep r
      else (case str_split sep r of [] \<Rightarrow> [[c]] | p # ps \<Rightarrow> (c # p) # ps))"

record root_ref =
  root :: "string option"
  meaning :: "string option"

record group_data =
  anchor :: "string option"
  synonyms :: "string list"
  antonyms :: "string list"
  meanings :: "string list"
  roots :: "root_ref list"
  derived :: "derived_word list"
  contexts :: "string list"

record parser =
  groups :: "group_data list"
  anchor_dict :: "string option \<rightharpoonup> group_data"
  root_dict :: "string option \<rightharpoonup> string option list"

definition dict_get ::
  "(string option \<rightharpoonup> string option list) \<Rightarrow> string option \<Rightarrow> string option list" where
  \<comment> \<open>\<open>d.get(k, [])\<close>, which is also the value of \<open>d[k]\<close> on a \<open>defaultdict(list)\<close>\<close>
  "dict_get d k = (case d k of None \<Rightarrow> [] | Some vs \<Rightarrow> vs)"

definition dict_append ::
  "(string option \<rightharpoonup> string option list) \<Rightarrow> string option \<Rightarrow> string option \<Rightarrow>
   (string option \<rightharpoonup> string option list)" where
  \<comment> \<open>\<open>d[k].append(v)\<close> on a \<open>defaultdict(list)\<close>\<close>
  "dict_append d k v = d(k \<mapsto> dict_get d k @ [v])"

definition derived_step ::
  "(string option \<rightharpoonup> string option list) \<Rightarrow> derived_word \<Rightarrow>
   (string option \<rightharpoonup> string option list)" where
  \<comment> \<open>the body of \<open>for dw in derived_words\<close>; every \<open>dw\<close> has the key \<open>'root'\<close>\<close>
  "derived_step d dw = dict_append d (Some (derived_word.root dw)) (Some (word dw))"

definition block_step ::
  "group_data \<times> (string option \<rightharpoonup> string option list) \<Rightarrow> block \<Rightarrow>
   group_data \<times> (string option \<rightharpoonup> string option list)" where
  \<comment> \<open>the body of \<open>for block in derived_blocks\<close>, on \<open>group_data\<close> and \<open>self.root_dict\<close>\<close>
  "block_step st b =
     (case st of (gd, rd) \<Rightarrow>
      (case b of (r, root_meaning, derived_words) \<Rightarrow>
        (gd\<lparr>roots := roots gd @ [\<lparr>root_ref.root = r, meaning = root_meaning\<rparr>],
            derived := derived gd @ derived_words\<rparr>,
         foldl derived_step (dict_append rd r (anchor gd)) derived_words)))"

definition group_lines :: "string \<Rightarrow> string list" where
  \<comment> \<open>\<open>[l for l in group.strip().split('\n') if l.strip()]\<close>\<close>
  "group_lines g = filter (\<lambda>l. strip l \<noteq> []) (str_split (CHR 0x0A) (strip g))"

definition parse_group :: "parser \<Rightarrow> string \<Rightarrow> error + parser" where
  \<comment> \<open>the body of \<open>for group in group_texts\<close>\<close>
  "parse_group st g =
     (case group_lines g of
        [] \<Rightarrow> Inr st
      | anchor_line # rest \<Rightarrow>
          (case parse_anchor_line anchor_line of (a, syn, ant, mean) \<Rightarrow>
            (case parse_blocks_and_contexts rest of
               Inl e \<Rightarrow> Inl e
             | Inr (derived_blocks, ctx) \<Rightarrow>
                 (case foldl block_step
                         (\<lparr>anchor = a, synonyms = syn, antonyms = ant, meanings = mean,
                           roots = [], derived = [], contexts = ctx\<rparr>, root_dict st)
                         derived_blocks of
                    (gd, rd) \<Rightarrow>
                      Inr \<lparr>groups = groups st @ [gd],
                           anchor_dict = (anchor_dict st)(a \<mapsto> gd),
                           root_dict = rd\<rparr>))))"

fun parse_groups :: "parser \<Rightarrow> string list \<Rightarrow> error + parser" where
  \<comment> \<open>the loop \<open>for group in group_texts\<close>; an exception ends it\<close>
  "parse_groups st [] = Inr st"
| "parse_groups st (g # gs) =
     (case parse_group st g of Inl e \<Rightarrow> Inl e | Inr st' \<Rightarrow> parse_groups st' gs)"

definition init :: parser where
  \<comment> \<open>the fields at the start of \<open>__init__\<close>\<close>
  "init = \<lparr>groups = [], anchor_dict = Map.empty, root_dict = Map.empty\<rparr>"

definition parse :: "string \<Rightarrow> error + parser" where
  \<comment> \<open>\<open>GREParser(filename)\<close> on a file whose text is \<open>text\<close>\<close>
  "parse text = parse_groups init (re_split [] (strip text))"

section \<open>Query engine\<close>

definition query_anchor :: "parser \<Rightarrow> string \<Rightarrow> group_data option" where
  \<comment> \<open>\<open>None\<close> stands for the line \<open>No entry for ...\<close>; otherwise the entry whose fields are
      printed.  (An entry is a dictionary of seven keys, so \<open>not data\<close> holds for \<open>None\<close> only.)\<close>
  "query_anchor st a = anchor_dict st (Some a)"

definition query_root :: "parser \<Rightarrow> string \<Rightarrow> string option set option" where
  \<comment> \<open>\<open>None\<close> stands for the line \<open>No words found for root ...\<close>; otherwise the set whose
      elements are printed\<close>
  "query_root st r =
     (let ws = set (dict_get (root_dict st) (Some r))
      in if ws = {} then None else Some ws)"

section \<open>Notions used in the properties\<close>

definition pal_anchor :: "string option \<times> string list \<times> string list \<times> string list \<Rightarrow> string option" where
  \<comment> \<open>the components of the tuple \<open>parse_anchor_line\<close> returns\<close>
  "pal_anchor r = fst r"

definition pal_synonyms :: "string option \<times> string list \<times> string list \<times> string list \<Rightarrow> string list" where
  "pal_synonyms r = fst (snd r)"

definition pal_antonyms :: "string option \<times> string list \<times> string list \<times> string list \<Rightarrow> string list" where
  "pal_antonyms r = fst (snd (snd r))"

definition pal_meanings :: "string option \<times> string list \<times> string list \<times> string list \<Rightarrow> string list" where
  "pal_meanings r = snd (snd (snd r))"

fun segments :: "string list \<Rightarrow> string list list" where
  \<comment> \<open>the runs of tokens between the semicolon tokens of a line: \<open>k\<close> semicolons delimit
      \<open>k + 1\<close> runs (some may be empty)\<close>
  "segments [] = [[]]"
| "segments (t # ts) =
     (if t = '';'' then [] # segments ts
      else (t # hd (segments ts)) # tl (segments ts))"


definition is_token :: "string \<Rightarrow> bool" where
  \<comment> \<open>the shapes of a token: a semicolon, a marker \<open><...>\<close> with a non-empty body free of
      \<open>>\<close>, or a non-empty run of characters of \<open>[^\s;]\<close> (an antonym marker when it starts
      with \<open>!\<close>, a bare word otherwise)\<close>
  "is_token t = (t = '';'' \<or>
     (\<exists>body. t = CHR ''<'' # body @ ''>'' \<and> body \<noteq> [] \<and> CHR ''>'' \<notin> set body) \<or>
     (t \<noteq> [] \<and> list_all word_char t))"

definition block_words :: "string option \<Rightarrow> string option \<Rightarrow> block \<Rightarrow> string option list" where
  \<comment> \<open>the words that loading one block of a group with anchor \<open>a\<close> appends to the entry \<open>k\<close>
      of the root index, in order\<close>
  "block_words a k b =
     (case b of (r, root_meaning, derived_words) \<Rightarrow>
        (if k = r then [a] else []) @
        map (\<lambda>dw. Some (word dw)) (filter (\<lambda>dw. Some (derived_word.root dw) = k) derived_words))"

definition group_view :: "string \<Rightarrow> block list \<Rightarrow> string list \<Rightarrow> group_data" where
  \<comment> \<open>the entry of a group with the anchor line \<open>al\<close> whose other lines scan to the blocks
      \<open>db\<close> and the context lines \<open>cx\<close>\<close>
  "group_view al db cx =
     \<lparr>anchor = pal_anchor (parse_anchor_line al),
      synonyms = pal_synonyms (parse_anchor_line al),
      antonyms = pal_antonyms (parse_anchor_line al),
      meanings = pal_meanings (parse_anchor_line al),
      roots = map (\<lambda>(r, root_meaning, derived_words). \<lparr>root_ref.root = r, meaning = root_meaning\<rparr>) db,
      derived = concat (map (\<lambda>(r, root_meaning, derived_words). derived_words) db),
      contexts = cx\<rparr>"

definition group_words :: "string option \<Rightarrow> string \<Rightarrow> string option list" where
  \<comment> \<open>the words that loading the group text \<open>g\<close> appends to the entry \<open>k\<close> of the root index\<close>
  "group_words k g =
     (case group_lines g of
        [] \<Rightarrow> []
      | al # rest \<Rightarrow>
          (case parse_blocks_and_contexts rest of
             Inl e \<Rightarrow> []
           | Inr (db, cx) \<Rightarrow> concat (map (block_words (pal_anchor (parse_anchor_line al)) k) db)))"

definition other_anchor :: "string \<Rightarrow> string \<Rightarrow> bool" where
  \<comment> \<open>the group text \<open>g\<close> has no line, or an anchor other than the string \<open>a\<close>\<close>
  "other_anchor a g =
     (case group_lines g of
        [] \<Rightarrow> True
      | al # rest \<Rightarrow> pal_anchor (parse_anchor_line al) \<noteq> Some a)"

definition extends ::
  "(string option \<rightharpoonup> string option list) \<Rightarrow> (string option \<rightharpoonup> string option list) \<Rightarrow> bool" where
  \<comment> \<open>every entry of the first index is still in the second, with words appended at most\<close>
  "extends d d' = (\<forall>k ws. d k = Some ws \<longrightarrow> (\<exists>ws'. d' k = Some (ws @ ws')))"

section \<open>Properties of the anchor-line parser\<close>

lemma segments_ne: "segments ts \<noteq> []"
  by (induction ts) auto

lemma length_segments: "length (segments ts) = count_list ts '';'' + 1"
  by (induction ts) (auto simp: segments_ne)







lemma anchor_set_step:
  "\<exists>s' n' m' cur'. anchor_step (Some a, s, n, m, cur) t = (Some a, s', n', m', cur')"
  by simp

lemma foldl_anchor_set:
  "\<exists>s' n' m' cur'. foldl anchor_step (Some a, s, n, m, cur) ts = (Some a, s', n', m', cur')"
proof (induction ts arbitrary: s n m cur)
  case Nil then show ?case by simp
next
  case (Cons t ts)
  obtain s' n' m' cur' where st: "anchor_step (Some a, s, n, m, cur) t = (Some a, s', n', m', cur')"
    using anchor_set_step by blast
  show ?case using Cons.IH [of s' n' m' cur'] by (simp only: foldl_Cons st)
qed

lemma anchor_step_first:
  "t \<noteq> '';'' \<Longrightarrow> \<exists>b s' n' m' cur'. anchor_step (a, s, n, m, cur) t = (Some b, s', n', m', cur')"
  by (cases a) (simp_all add: Let_def)

lemma anchor_step_semicolon:
  "\<exists>m' cur'. anchor_step (a, s, n, m, cur) '';'' = (a, s, n, m', cur')"
  by simp

lemma foldl_anchor_becomes_set:
  "\<exists>u\<in>set ts. u \<noteq> '';'' \<Longrightarrow>
   \<exists>a' s' n' m' cur'. foldl anchor_step (a, s, n, m, cur) ts = (Some a', s', n', m', cur')"
proof (induction ts arbitrary: a s n m cur)
  case Nil then show ?case by simp
next
  case (Cons t ts)
  show ?case
  proof (cases "t = '';''")
    case True
    then have e: "\<exists>u\<in>set ts. u \<noteq> '';''" using Cons.prems by auto
    obtain m' cur' where st: "anchor_step (a, s, n, m, cur) t = (a, s, n, m', cur')"
      using anchor_step_semicolon [of a s n m cur] True by blast
    show ?thesis using Cons.IH [OF e, of a s n m' cur'] by (simp only: foldl_Cons st)
  next
    case False
    obtain b s' n' m' cur' where st: "anchor_step (a, s, n, m, cur) t = (Some b, s', n', m', cur')"
      using anchor_step_first [OF False, of a s n m cur] by blast
    obtain s2 n2 m2 c2 where r: "foldl anchor_step (Some b, s', n', m', cur') ts = (Some b, s2, n2, m2, c2)"
      using foldl_anchor_set [of b s' n' m' cur' ts] by blast
    show ?thesis unfolding foldl_Cons st r by blast
  qed
qed


lemma anchor_step_antonyms:
  "anchor_step (a, s, n, m, cur) t =
     (case anchor_step (a, s, [], m, cur) t of (a', s', x, m', cur') \<Rightarrow> (a', s', n @ x, m', cur'))"
  by (cases a) (simp_all add: Let_def)

lemma foldl_anchor_antonyms:
  "foldl anchor_step (a, s, n, m, cur) ts =
     (case foldl anchor_step (a, s, [], m, cur) ts of (a', s', x, m', cur') \<Rightarrow> (a', s', n @ x, m', cur'))"
proof (induction ts arbitrary: a s n m cur)
  case Nil
  show ?case by simp
next
  case (Cons t ts)
  obtain a' s' x m' cur' where st: "anchor_step (a, s, [], m, cur) t = (a', s', x, m', cur')"
    by (rule prod_cases5)
  have st': "anchor_step (a, s, n, m, cur) t = (a', s', n @ x, m', cur')"
    by (subst anchor_step_antonyms) (simp only: st prod.case)
  obtain a2 s2 y m2 cur2 where r: "foldl anchor_step (a', s', [], m', cur') ts = (a2, s2, y, m2, cur2)"
    by (rule prod_cases5)
  have 1: "foldl anchor_step (a', s', n @ x, m', cur') ts = (a2, s2, (n @ x) @ y, m2, cur2)"
    by (subst Cons.IH) (simp only: r prod.case)
  have 2: "foldl anchor_step (a', s', x, m', cur') ts = (a2, s2, x @ y, m2, cur2)"
    by (subst Cons.IH) (simp only: r prod.case)
  show ?case
    by (simp only: foldl_Cons st st' 1 2 prod.case append_assoc)
qed

lemma antonym_token_gen:
  assumes "startswith t ''!''" and "\<exists>u\<in>set pre. u \<noteq> '';''"
  shows "\<exists>a s n1 n2 m. parse_tokens (pre @ t # post) = (a, s, n1 @ drop 1 t # n2, m)
           \<and> parse_tokens (pre @ post) = (a, s, n1 @ n2, m)"
proof -
  obtain a s n m cur where p: "foldl anchor_step (None, [], [], [], []) pre = (Some a, s, n, m, cur)"
    using foldl_anchor_becomes_set [OF assms(2), of None "[]" "[]" "[]" "[]"] by blast
  have ne: "t \<noteq> '';''" using assms(1) by (auto simp: startswith_def)
  have st: "anchor_step (Some a, s, n, m, cur) t = (Some a, s, n @ [drop 1 t], m, cur)"
    using assms(1) ne by simp
  obtain a2 s2 y m2 cur2 where r: "foldl anchor_step (Some a, s, [], m, cur) post = (a2, s2, y, m2, cur2)"
    by (rule prod_cases5)
  have 1: "foldl anchor_step (None, [], [], [], []) (pre @ t # post) = (a2, s2, (n @ [drop 1 t]) @ y, m2, cur2)"
    by (simp only: foldl_append foldl_Cons p st) (subst foldl_anchor_antonyms, simp only: r prod.case)
  have 2: "foldl anchor_step (None, [], [], [], []) (pre @ post) = (a2, s2, n @ y, m2, cur2)"
    by (simp only: foldl_append p) (subst foldl_anchor_antonyms, simp only: r prod.case)
  have "parse_tokens (pre @ t # post) =
      (a2, s2, n @ drop 1 t # y, if cur2 \<noteq> [] then m2 @ [strip (join '' '' cur2)] else m2)"
    unfolding parse_tokens_def 1 by (simp add: anchor_finish_def)
  moreover have "parse_tokens (pre @ post) =
      (a2, s2, n @ y, if cur2 \<noteq> [] then m2 @ [strip (join '' '' cur2)] else m2)"
    unfolding parse_tokens_def 2 by (simp add: anchor_finish_def)
  ultimately show ?thesis by blast
qed

lemma foldl_anchor_semicolons:
  "\<forall>u\<in>set ts. u = '';'' \<Longrightarrow>
   foldl anchor_step (None, [], [], [], []) ts = (None, [], [], [], [])"
  by (induction ts) simp_all

lemma first_token_anchor:
  assumes "\<forall>u\<in>set pre. u = '';''" and "t \<noteq> '';''"
  shows "foldl anchor_step (None, [], [], [], []) (pre @ [t]) =
           (Some (strip_chars (\<lambda>c. c \<in> set ''<>!'') t), [], [], [],
            [strip_chars (\<lambda>c. c \<in> set ''<>!'') t])"
    and "pal_anchor (parse_tokens (pre @ t # post)) = Some (strip_chars (\<lambda>c. c \<in> set ''<>!'') t)"
proof -
  let ?a = "strip_chars (\<lambda>c. c \<in> set ''<>!'') t"
  have st: "anchor_step (None, [], [], [], []) t = (Some ?a, [], [], [], [?a])"
    using assms(2) by (simp add: Let_def)
  show 1: "foldl anchor_step (None, [], [], [], []) (pre @ [t]) = (Some ?a, [], [], [], [?a])"
    by (simp only: foldl_append foldl_anchor_semicolons [OF assms(1)] foldl_Cons foldl_Nil st)
  obtain s' n' m' cur' where r: "foldl anchor_step (Some ?a, [], [], [], [?a]) post = (Some ?a, s', n', m', cur')"
    using foldl_anchor_set [of ?a "[]" "[]" "[]" "[?a]" post] by blast
  have "foldl anchor_step (None, [], [], [], []) ((pre @ [t]) @ post) =
      foldl anchor_step (foldl anchor_step (None, [], [], [], []) (pre @ [t])) post"
    by (rule foldl_append)
  then have "foldl anchor_step (None, [], [], [], []) ((pre @ [t]) @ post) = (Some ?a, s', n', m', cur')"
    unfolding 1 r .
  then have "foldl anchor_step (None, [], [], [], []) (pre @ t # post) = (Some ?a, s', n', m', cur')"
    by simp
  then show "pal_anchor (parse_tokens (pre @ t # post)) = Some ?a"
    by (simp add: parse_tokens_def anchor_finish_def pal_anchor_def)
qed

text \<open>
  C2 (as amended).  A token \<open>!X\<close> that comes after the anchor token (the first token of the
  line that is not a semicolon) has \<open>X\<close> appended to the antonyms and contributes to nothing
  else: the anchor, the synonyms and the meanings are those of the token sequence with that
  token deleted.  A token \<open>!X\<close> that is itself the first token that is not a semicolon is not
  recorded as an antonym: it is the anchor token, the anchor being its text without the
  leading and trailing characters \<open><\<close>, \<open>>\<close> and \<open>!\<close>, and after it the antonyms are
  still empty.
\<close>

theorem antonym_token_recorded:
  "(findall line = pre @ t # post \<and> startswith t ''!'' \<and> (\<exists>u\<in>set pre. u \<noteq> '';'') \<longrightarrow>
      drop 1 t \<in> set (pal_antonyms (parse_anchor_line line)) \<and>
      pal_anchor (parse_anchor_line line) = pal_anchor (parse_tokens (pre @ post)) \<and>
      pal_synonyms (parse_anchor_line line) = pal_synonyms (parse_tokens (pre @ post)) \<and>
      pal_meanings (parse_anchor_line line) = pal_meanings (parse_tokens (pre @ post))) \<and>
   (findall line = pre @ t # post \<and> startswith t ''!'' \<and> (\<forall>u\<in>set pre. u = '';'') \<longrightarrow>
      foldl anchor_step (None, [], [], [], []) (pre @ [t]) =
        (Some (strip_chars (\<lambda>c. c \<in> set ''<>!'') t), [], [], [],
         [strip_chars (\<lambda>c. c \<in> set ''<>!'') t]) \<and>
      pal_anchor (parse_anchor_line line) = Some (strip_chars (\<lambda>c. c \<in> set ''<>!'') t))"
proof (intro conjI impI)
  assume h: "findall line = pre @ t # post \<and> startswith t ''!'' \<and> (\<exists>u\<in>set pre. u \<noteq> '';'')"
  then have f: "findall line = pre @ t # post" and s: "startswith t ''!''"
    and e: "\<exists>u\<in>set pre. u \<noteq> '';''"
    by simp_all
  obtain a s n1 n2 m where 1: "parse_tokens (pre @ t # post) = (a, s, n1 @ drop 1 t # n2, m)"
    and 2: "parse_tokens (pre @ post) = (a, s, n1 @ n2, m)"
    using antonym_token_gen [OF s e, of post] by blast
  show "drop 1 t \<in> set (pal_antonyms (parse_anchor_line line))"
    unfolding parse_anchor_line_def f 1 by (simp add: pal_antonyms_def)
  show "pal_anchor (parse_anchor_line line) = pal_anchor (parse_tokens (pre @ post))"
    unfolding parse_anchor_line_def f 1 2 by (simp add: pal_anchor_def)
  show "pal_synonyms (parse_anchor_line line) = pal_synonyms (parse_tokens (pre @ post))"
    unfolding parse_anchor_line_def f 1 2 by (simp add: pal_synonyms_def)
  show "pal_meanings (parse_anchor_line line) = pal_meanings (parse_tokens (pre @ post))"
    unfolding parse_anchor_line_def f 1 2 by (simp add: pal_meanings_def)
next
  assume h: "findall line = pre @ t # post \<and> startswith t ''!'' \<and> (\<forall>u\<in>set pre. u = '';'')"
  then have f: "findall line = pre @ t # post" and s: "startswith t ''!''"
    and e: "\<forall>u\<in>set pre. u = '';''"
    by simp_all
  have ne: "t \<noteq> '';''" using s by (auto simp: startswith_def)
  show "foldl anchor_step (None, [], [], [], []) (pre @ [t]) =
        (Some (strip_chars (\<lambda>c. c \<in> set ''<>!'') t), [], [], [],
         [strip_chars (\<lambda>c. c \<in> set ''<>!'') t])"
    by (rule first_token_anchor(1) [OF e ne])
  show "pal_anchor (parse_anchor_line line) = Some (strip_chars (\<lambda>c. c \<in> set ''<>!'') t)"
    unfolding parse_anchor_line_def f by (rule first_token_anchor(2) [OF e ne])
qed

theorem antonym_token_recorded_witness:
  "findall ''obscure cover !clear; unclear'' =
     [''obscure'', ''cover''] @ ''!clear'' # ['';'', ''unclear''] \<and>
   ''clear'' \<in> set (pal_antonyms (parse_anchor_line ''obscure cover !clear; unclear'')) \<and>
   pal_synonyms (parse_anchor_line ''obscure cover !clear; unclear'') = [''cover'', ''unclear''] \<and>
   pal_meanings (parse_anchor_line ''obscure cover !clear; unclear'') =
     [''obscure cover'', ''unclear''] \<and>
   findall ''; !a! b'' = ['';''] @ ''!a!'' # [''b''] \<and>
   foldl anchor_step (None, [], [], [], []) ['';'', ''!a!''] = (Some ''a'', [], [], [], [''a'']) \<and>
   pal_anchor (parse_anchor_line ''; !a! b'') = Some ''a''"
proof -
  have ev: "findall ''obscure cover !clear; unclear'' =
      [''obscure'', ''cover''] @ ''!clear'' # ['';'', ''unclear'']"
    by code_simp
  have p: "parse_tokens [''obscure'', ''cover'', '';'', ''unclear''] =
      (Some ''obscure'', [''cover'', ''unclear''], [], [''obscure cover'', ''unclear''])"
    by code_simp
  have s: "startswith ''!clear'' ''!''" by (simp add: startswith_def)
  have e: "\<exists>u\<in>set [''obscure'', ''cover'']. u \<noteq> '';''" by simp
  have 1: "''clear'' \<in> set (pal_antonyms (parse_anchor_line ''obscure cover !clear; unclear'')) \<and>
      pal_synonyms (parse_anchor_line ''obscure cover !clear; unclear'') = [''cover'', ''unclear''] \<and>
      pal_meanings (parse_anchor_line ''obscure cover !clear; unclear'') =
        [''obscure cover'', ''unclear'']"
    using antonym_token_recorded [where line = "''obscure cover !clear; unclear''"
        and pre = "[''obscure'', ''cover'']" and t = "''!clear''" and post = "['';'', ''unclear'']",
        THEN conjunct1, THEN mp, OF conjI [OF ev conjI [OF s e]]]
    by (simp add: p pal_synonyms_def pal_meanings_def)
  have ev2: "findall ''; !a! b'' = ['';''] @ ''!a!'' # [''b'']" by code_simp
  have s2: "startswith ''!a!'' ''!''" by (simp add: startswith_def)
  have e2: "\<forall>u\<in>set ['';'']. u = '';''" by simp
  have sc: "strip_chars (\<lambda>c. c \<in> set ''<>!'') ''!a!'' = ''a''" by (simp add: strip_chars_def)
  have 2: "foldl anchor_step (None, [], [], [], []) ['';'', ''!a!''] = (Some ''a'', [], [], [], [''a'']) \<and>
      pal_anchor (parse_anchor_line ''; !a! b'') = Some ''a''"
    using antonym_token_recorded [where line = "''; !a! b''"
        and pre = "['';'']" and t = "''!a!''" and post = "[''b'']",
        THEN conjunct2, THEN mp, OF conjI [OF ev2 conjI [OF s2 e2]]]
    unfolding sc by simp
  from ev 1 ev2 2 show ?thesis by simp
qed

theorem antonym_token_recorded_counterexample:
  "''!foo'' \<in> set (findall ''!foo'') \<and>
   ''foo'' \<notin> set (pal_antonyms (parse_anchor_line ''!foo'')) \<and>
   findall ''a <!b> !b'' = [''a'', ''<!b>'', ''!b''] \<and>
   pal_antonyms (parse_anchor_line ''a <!b> !b'') = [''b''] \<and>
   pal_meanings (parse_anchor_line ''a <!b> !b'') = [''a !b'']"
  by code_simp













section \<open>Properties of the tokenizer\<close>

lemma match_bracket_split:
  assumes "match_bracket s = Some (t, r)"
  shows "s = t @ r \<and> is_token t"
proof -
  obtain r0 where s: "s = CHR ''<'' # r0"
    using assms by (cases s) (auto simp: match_bracket_def split: if_splits)
  let ?body = "takeWhile (\<lambda>x. x \<noteq> CHR ''>'') r0"
  let ?after = "dropWhile (\<lambda>x. x \<noteq> CHR ''>'') r0"
  have b: "?body \<noteq> []" and a: "?after \<noteq> []" and t: "t = CHR ''<'' # ?body @ ''>''"
    and r: "r = tl ?after"
    using assms s by (auto simp: match_bracket_def Let_def split: if_splits)
  have "hd ?after = CHR ''>''" using hd_dropWhile [OF a] by simp
  then have "?after = CHR ''>'' # r" using a r by (cases ?after) auto
  then have "r0 = ?body @ CHR ''>'' # r" by (metis takeWhile_dropWhile_id)
  then have 1: "s = t @ r" using s t by simp
  have "CHR ''>'' \<notin> set ?body" by (auto dest: set_takeWhileD)
  then have "is_token t" unfolding is_token_def using b t by blast
  with 1 show ?thesis by simp
qed

lemma match_antonym_split:
  assumes "match_antonym s = Some (t, r)"
  shows "s = t @ r \<and> is_token t"
proof -
  obtain r0 where s: "s = CHR ''!'' # r0" and t: "t = CHR ''!'' # takeWhile word_char r0"
    and r: "r = dropWhile word_char r0"
    using assms by (cases s) (auto simp: match_antonym_def split: if_splits)
  have w: "word_char CHR ''!''" by (simp add: word_char_def isspace_def)
  have "list_all word_char t" using t w by (auto simp: list_all_iff dest: set_takeWhileD)
  then show ?thesis using s t r by (simp add: is_token_def)
qed

lemma match_word_split:
  assumes "match_word s = Some (t, r)"
  shows "s = t @ r \<and> is_token t"
proof -
  have t: "t = takeWhile word_char s" and r: "r = dropWhile word_char s" and ne: "t \<noteq> []"
    using assms by (auto simp: match_word_def split: if_splits)
  have "list_all word_char t" using t by (auto simp: list_all_iff dest: set_takeWhileD)
  then show ?thesis using t r ne by (simp add: is_token_def)
qed

lemma match_semicolon_split:
  "match_semicolon s = Some (t, r) \<Longrightarrow> s = t @ r \<and> is_token t"
  by (cases s) (auto simp: match_semicolon_def is_token_def split: if_splits)

lemma match_token_split:
  assumes "match_token s = Some (t, r)"
  shows "s = t @ r \<and> is_token t"
proof (cases "match_bracket s")
  case (Some m)
  then have "match_bracket s = Some (t, r)" using assms by (simp add: match_token_def)
  then show ?thesis by (rule match_bracket_split)
next
  case b: None
  show ?thesis
  proof (cases "match_antonym s")
    case (Some m)
    then have "match_antonym s = Some (t, r)" using assms b by (simp add: match_token_def)
    then show ?thesis by (rule match_antonym_split)
  next
    case a: None
    show ?thesis
    proof (cases "match_word s")
      case (Some m)
      then have "match_word s = Some (t, r)" using assms a b by (simp add: match_token_def)
      then show ?thesis by (rule match_word_split)
    next
      case None
      then have "match_semicolon s = Some (t, r)" using assms a b by (simp add: match_token_def)
      then show ?thesis by (rule match_semicolon_split)
    qed
  qed
qed

lemma match_token_None:
  assumes "match_token (c # r) = None"
  shows "isspace c"
proof (rule ccontr)
  assume n: "\<not> isspace c"
  have w: "match_word (c # r) = None" and sc: "match_semicolon (c # r) = None"
    using assms by (auto simp: match_token_def split: option.splits)
  from sc have "c \<noteq> CHR '';''" by (auto simp: match_semicolon_def split: if_splits)
  with n have "word_char c" by (simp add: word_char_def)
  then show False using w by (simp add: match_word_def)
qed

lemma is_token_nonempty: "is_token t \<Longrightarrow> t \<noteq> []"
  by (auto simp: is_token_def)

lemma findall_tokens: "\<forall>t\<in>set (findall line). is_token t"
proof (induction line rule: findall.induct)
  case 1
  show ?case by (simp add: findall.simps)
next
  case (2 c r)
  show ?case
  proof (cases "match_token (c # r)")
    case None
    then show ?thesis using 2(1) by (simp add: findall.simps)
  next
    case (Some p)
    obtain t rest where p: "p = (t, rest)" by (cases p)
    have "is_token t" using match_token_split [of "c # r" t rest] Some p by simp
    then show ?thesis using 2(2) [OF Some [unfolded p] refl] Some p by (simp add: findall.simps)
  qed
qed

lemma findall_keeps_text:
  "filter (\<lambda>c. \<not> isspace c) (concat (findall line)) = filter (\<lambda>c. \<not> isspace c) line"
proof (induction line rule: findall.induct)
  case 1
  show ?case by (simp add: findall.simps)
next
  case (2 c r)
  show ?case
  proof (cases "match_token (c # r)")
    case None
    then show ?thesis using 2(1) match_token_None [OF None] by (simp add: findall.simps)
  next
    case (Some p)
    obtain t rest where p: "p = (t, rest)" by (cases p)
    have sp: "c # r = t @ rest" using match_token_split [of "c # r" t rest] Some p by simp
    have "filter (\<lambda>c. \<not> isspace c) (concat (findall (c # r))) =
        filter (\<lambda>c. \<not> isspace c) t @ filter (\<lambda>c. \<not> isspace c) rest"
      using 2(2) [OF Some [unfolded p] refl] Some p by (simp add: findall.simps)
    then show ?thesis unfolding sp by simp
  qed
qed

lemma unterminated_bracket_token:
  assumes "CHR ''>'' \<notin> set r"
  shows "match_token (CHR ''<'' # r) =
           Some (CHR ''<'' # takeWhile word_char r, dropWhile word_char r)"
proof -
  have b: "match_bracket (CHR ''<'' # r) = None"
    using assms by (auto simp: match_bracket_def Let_def dropWhile_eq_Nil_conv)
  have a: "match_antonym (CHR ''<'' # r) = None" by (simp add: match_antonym_def)
  have w: "word_char CHR ''<''" by (simp add: word_char_def isspace_def)
  then have "match_word (CHR ''<'' # r) =
      Some (CHR ''<'' # takeWhile word_char r, dropWhile word_char r)"
    by (simp add: match_word_def)
  then show ?thesis by (simp add: match_token_def a b)
qed

lemma unterminated_bracket_bare:
  assumes "CHR ''>'' \<notin> set r"
  shows "anchor_step (Some a, s, n, m, cur) (CHR ''<'' # takeWhile word_char r) =
      (Some a, s @ [CHR ''<'' # takeWhile word_char r], n, m,
       cur @ [CHR ''<'' # takeWhile word_char r])"
proof -
  let ?t = "CHR ''<'' # takeWhile word_char r"
  have "CHR ''>'' \<notin> set ?t" using assms by (auto dest: set_takeWhileD)
  then have "last ?t \<noteq> CHR ''>''" by (metis last_in_set list.distinct(1))
  then have e: "\<not> endswith ?t ''>''"
    by (cases ?t rule: rev_cases) (auto simp: endswith_def)
  have b: "\<not> startswith ?t ''!''" by (simp add: startswith_def)
  have "?t \<noteq> '';''" by simp
  then show ?thesis using e b by simp
qed

lemma closed_bracket_token:
  assumes "body \<noteq> []" and "CHR ''>'' \<notin> set body"
  shows "match_token (CHR ''<'' # body @ CHR ''>'' # rest) = Some (CHR ''<'' # body @ ''>'', rest)"
proof -
  have t: "takeWhile (\<lambda>x. x \<noteq> CHR ''>'') (body @ CHR ''>'' # rest) = body"
    using assms(2) by (subst takeWhile_append2) auto
  have d: "dropWhile (\<lambda>x. x \<noteq> CHR ''>'') (body @ CHR ''>'' # rest) = CHR ''>'' # rest"
    using assms(2) by (subst dropWhile_append2) auto
  have "match_bracket (CHR ''<'' # body @ CHR ''>'' # rest) = Some (CHR ''<'' # body @ ''>'', rest)"
    using assms(1) by (simp add: match_bracket_def t d)
  then show ?thesis by (simp add: match_token_def)
qed

text \<open>
  C7 (as amended).  The tokenizer is total: \<open>findall\<close> is a terminating recursion with no error
  result, every token it returns has one of the token shapes, and no character other than
  white space is lost.  Where the scan stands at a \<open><\<close> with no \<open>>\<close> anywhere after it on the
  line, the token is a bare word, the longest run of characters of \<open>[^\s;]\<close> from that \<open><\<close> on,
  so that its text begins with \<open><\<close>; the anchor-line parser records it verbatim as a synonym
  when the anchor is set already, and makes it the anchor, without its leading and trailing
  \<open><\<close>, \<open>>\<close>, \<open>!\<close>, when it is not.  Where the scan stands at a \<open><\<close> followed by one or more
  characters other than \<open>>\<close> and then by \<open>>\<close>, the token is the marker that ends at this \<open>>\<close>,
  whatever white space or semicolons it holds.
\<close>

theorem tokenizer_total:
  "(\<forall>t\<in>set (findall line). is_token t) \<and>
   filter (\<lambda>c. \<not> isspace c) (concat (findall line)) = filter (\<lambda>c. \<not> isspace c) line \<and>
   (CHR ''>'' \<notin> set r \<longrightarrow>
      findall (CHR ''<'' # r) =
        (CHR ''<'' # takeWhile word_char r) # findall (dropWhile word_char r) \<and>
      anchor_step (Some a, s, n, m, cur) (CHR ''<'' # takeWhile word_char r) =
        (Some a, s @ [CHR ''<'' # takeWhile word_char r], n, m,
         cur @ [CHR ''<'' # takeWhile word_char r]) \<and>
      anchor_step (None, s, n, m, cur) (CHR ''<'' # takeWhile word_char r) =
        (Some (strip_chars (\<lambda>c. c \<in> set ''<>!'') (CHR ''<'' # takeWhile word_char r)), s, n, m,
         cur @ [strip_chars (\<lambda>c. c \<in> set ''<>!'') (CHR ''<'' # takeWhile word_char r)])) \<and>
   (body \<noteq> [] \<and> CHR ''>'' \<notin> set body \<longrightarrow>
      findall (CHR ''<'' # body @ CHR ''>'' # rest) = (CHR ''<'' # body @ ''>'') # findall rest)"
proof (intro conjI impI)
  show "\<forall>t\<in>set (findall line). is_token t" by (rule findall_tokens)
  show "filter (\<lambda>c. \<not> isspace c) (concat (findall line)) = filter (\<lambda>c. \<not> isspace c) line"
    by (rule findall_keeps_text)
next
  assume h: "CHR ''>'' \<notin> set r"
  show "findall (CHR ''<'' # r) =
      (CHR ''<'' # takeWhile word_char r) # findall (dropWhile word_char r)"
    by (simp add: findall.simps unterminated_bracket_token [OF h])
  show "anchor_step (Some a, s, n, m, cur) (CHR ''<'' # takeWhile word_char r) =
      (Some a, s @ [CHR ''<'' # takeWhile word_char r], n, m,
       cur @ [CHR ''<'' # takeWhile word_char r])"
    by (rule unterminated_bracket_bare [OF h])
  show "anchor_step (None, s, n, m, cur) (CHR ''<'' # takeWhile word_char r) =
        (Some (strip_chars (\<lambda>c. c \<in> set ''<>!'') (CHR ''<'' # takeWhile word_char r)), s, n, m,
         cur @ [strip_chars (\<lambda>c. c \<in> set ''<>!'') (CHR ''<'' # takeWhile word_char r)])"
    by (simp add: Let_def)
next
  assume "body \<noteq> [] \<and> CHR ''>'' \<notin> set body"
  then have "match_token (CHR ''<'' # body @ CHR ''>'' # rest) = Some (CHR ''<'' # body @ ''>'', rest)"
    using closed_bracket_token by blast
  then show "findall (CHR ''<'' # body @ CHR ''>'' # rest) = (CHR ''<'' # body @ ''>'') # findall rest"
    by (simp add: findall.simps)
qed

theorem tokenizer_total_witness:
  "findall ''<abc def'' = [''<abc'', ''def''] \<and>
   anchor_step (Some ''x'', [], [], [], [''x'']) ''<abc'' =
     (Some ''x'', [''<abc''], [], [], [''x'', ''<abc'']) \<and>
   anchor_step (None, [], [], [], []) ''<abc'' = (Some ''abc'', [], [], [], [''abc'']) \<and>
   pal_synonyms (parse_anchor_line ''x <abc def'') = [''<abc'', ''def''] \<and>
   findall ''<a b> y'' = [''<a b>'', ''y'']"
proof -
  have h: "CHR ''>'' \<notin> set ''abc def''" by simp
  have h2: "''a b'' \<noteq> [] \<and> CHR ''>'' \<notin> set ''a b''" by simp
  have t: "takeWhile word_char ''abc def'' = ''abc''"
    and d: "dropWhile word_char ''abc def'' = '' def''"
    by (simp_all add: word_char_def isspace_def)
  have r: "findall '' def'' = [''def'']" and r2: "findall '' y'' = [''y'']" by code_simp+
  have p: "pal_synonyms (parse_anchor_line ''x <abc def'') = [''<abc'', ''def'']" by code_simp
  show ?thesis
    using tokenizer_total [of "''x <abc def''" "''abc def''" "''x''" "[]" "[]" "[]" "[''x'']"
        "''a b''" "'' y''"] h h2
    unfolding t d r by (simp add: p r2 Let_def strip_chars_def)
qed

theorem tokenizer_total_counterexample:
  "findall ''x <a b> y'' = [''x'', ''<a b>'', ''y''] \<and>
   CHR ''>'' \<notin> set (takeWhile (\<lambda>c. \<not> isspace c \<and> c \<noteq> CHR '';'') ''<a b> y'') \<and>
   parse_anchor_line ''x <a b> y'' = (Some ''x'', [''a b'', ''y''], [], [''x a b y''])"
  by code_simp

section \<open>Properties of the block scanner\<close>

lemma block_loop_eq:
  "block_loop lines i acc =
     Inr (i + length (takeWhile (\<lambda>l. \<not> startswith (strip l) ''}'') (drop i lines)),
          acc @ map strip (takeWhile (\<lambda>l. \<not> startswith (strip l) ''}'') (drop i lines)))"
proof (induction lines i acc rule: block_loop.induct)
  case (1 lines i block_lines)
  show ?case
  proof (cases "i < length lines")
    case False
    then show ?thesis by (subst block_loop.simps) simp
  next
    case True
    then have d: "drop i lines = lines ! i # drop (i + 1) lines"
      by (simp add: Cons_nth_drop_Suc)
    show ?thesis
    proof (cases "startswith (strip (lines ! i)) ''}''")
      case c: True
      then show ?thesis using True by (subst block_loop.simps) (simp add: getitem_def d)
    next
      case c: False
      have ih: "block_loop lines (Suc i) (block_lines @ [strip (lines ! i)]) =
          Inr (Suc (i + length (takeWhile (\<lambda>l. \<not> startswith (strip l) ''}'') (drop (Suc i) lines))),
            block_lines @ strip (lines ! i) #
              map strip (takeWhile (\<lambda>l. \<not> startswith (strip l) ''}'') (drop (Suc i) lines)))"
        using "1.IH" [of "lines ! i" "lines ! i"] True c by (simp add: getitem_def)
      show ?thesis
        using True c by (subst block_loop.simps) (simp add: getitem_def d ih)
    qed
  qed
qed

lemma context_loop_eq:
  "context_loop lines i acc =
     Inr (i + length (takeWhile (\<lambda>l. \<not> startswith (strip l) '']'') (drop i lines)),
          acc @ map (\<lambda>l. strip_chars (\<lambda>c. c = CHR 0x22) (strip l))
            (takeWhile (\<lambda>l. \<not> startswith (strip l) '']'') (drop i lines)))"
proof (induction lines i acc rule: context_loop.induct)
  case (1 lines i context_lines)
  show ?case
  proof (cases "i < length lines")
    case False
    then show ?thesis by (subst context_loop.simps) simp
  next
    case True
    then have d: "drop i lines = lines ! i # drop (i + 1) lines"
      by (simp add: Cons_nth_drop_Suc)
    show ?thesis
    proof (cases "startswith (strip (lines ! i)) '']''")
      case c: True
      then show ?thesis using True by (subst context_loop.simps) (simp add: getitem_def d)
    next
      case c: False
      have ih: "context_loop lines (Suc i)
            (context_lines @ [strip_chars (\<lambda>c. c = CHR 0x22) (strip (lines ! i))]) =
          Inr (Suc (i + length (takeWhile (\<lambda>l. \<not> startswith (strip l) '']'') (drop (Suc i) lines))),
            context_lines @ strip_chars (\<lambda>c. c = CHR 0x22) (strip (lines ! i)) #
              map (\<lambda>l. strip_chars (\<lambda>c. c = CHR 0x22) (strip l))
                (takeWhile (\<lambda>l. \<not> startswith (strip l) '']'') (drop (Suc i) lines)))"
        using "1.IH" [of "lines ! i" "lines ! i"] True c by (simp add: getitem_def)
      show ?thesis
        using True c by (subst context_loop.simps) (simp add: getitem_def d ih)
    qed
  qed
qed

lemma scan_end: "length lines \<le> i \<Longrightarrow> scan lines i db cx = Inr (db, cx)"
  by (subst scan.simps) simp

lemma scan_open_block:
  assumes "i < length lines" and "startswith (strip (lines ! i)) ''{''"
  shows "scan lines i db cx =
     scan lines (i + length (takeWhile (\<lambda>l. \<not> startswith (strip l) ''}'') (drop (i + 1) lines)) + 2)
       (if takeWhile (\<lambda>l. \<not> startswith (strip l) ''}'') (drop (i + 1) lines) \<noteq> []
        then db @ [parse_derived_block
               (map strip (takeWhile (\<lambda>l. \<not> startswith (strip l) ''}'') (drop (i + 1) lines)))]
        else db) cx"
  using assms by (subst scan.simps) (simp add: getitem_def block_loop_eq)

lemma scan_open_context:
  assumes "i < length lines" and "\<not> startswith (strip (lines ! i)) ''{''"
    and "startswith (strip (lines ! i)) ''[''"
  shows "scan lines i db cx =
     scan lines (i + length (takeWhile (\<lambda>l. \<not> startswith (strip l) '']'') (drop (i + 1) lines)) + 2)
       db (cx @ map (\<lambda>l. strip_chars (\<lambda>c. c = CHR 0x22) (strip l))
          (takeWhile (\<lambda>l. \<not> startswith (strip l) '']'') (drop (i + 1) lines)))"
  using assms by (subst scan.simps) (simp add: getitem_def context_loop_eq)

lemma scan_skip:
  assumes "i < length lines" and "\<not> startswith (strip (lines ! i)) ''{''"
    and "\<not> startswith (strip (lines ! i)) ''[''"
  shows "scan lines i db cx = scan lines (i + 1) db cx"
  using assms by (subst scan.simps) (simp add: getitem_def)

lemma scan_total: "\<exists>r. scan lines i db cx = Inr r"
proof (induction lines i db cx rule: scan.induct)
  case (1 lines i db cx)
  show ?case
  proof (cases "i < length lines")
    case False
    then show ?thesis by (simp add: scan_end)
  next
    case True
    let ?b = "takeWhile (\<lambda>l. \<not> startswith (strip l) ''}'') (drop (i + 1) lines)"
    let ?c = "takeWhile (\<lambda>l. \<not> startswith (strip l) '']'') (drop (i + 1) lines)"
    have g: "getitem lines i = Inr (lines ! i)" using True by (simp add: getitem_def)
    show ?thesis
    proof (cases "startswith (strip (lines ! i)) ''{''")
      case b: True
      have bl: "block_loop lines (i + 1) [] = Inr (i + 1 + length ?b, [] @ map strip ?b)"
        by (rule block_loop_eq)
      show ?thesis
        using "1.IH"(1) [OF True g b bl refl] True b
        by (subst scan.simps) (simp only: g bl if_True sum.case prod.case)
    next
      case b: False
      show ?thesis
      proof (cases "startswith (strip (lines ! i)) ''[''")
        case c: True
        have cl: "context_loop lines (i + 1) [] = Inr (i + 1 + length ?c,
            [] @ map (\<lambda>l. strip_chars (\<lambda>c. c = CHR 0x22) (strip l)) ?c)"
          by (rule context_loop_eq)
        show ?thesis
          using "1.IH"(2) [OF True g b c cl refl] True b c
          by (subst scan.simps) (simp only: g cl if_True if_False sum.case prod.case)
      next
        case c: False
        show ?thesis
          using "1.IH"(3) [OF True g b c] True b c
          by (subst scan.simps) (simp only: g if_True if_False sum.case)
      qed
    qed
  qed
qed






section \<open>Properties of the root-derivation parser\<close>

lemma parse_derived_block_fallback:
  "match_root first = None \<Longrightarrow>
   parse_derived_block (first # rest) =
     (Some first, Some [], map (\<lambda>w. \<lparr>word = w, root = first\<rparr>) (filter (\<lambda>w. w \<noteq> []) rest))"
  by (simp add: parse_derived_block_def)

lemma parse_derived_block_root:
  "ls \<noteq> [] \<Longrightarrow>
   \<exists>r m. parse_derived_block ls =
     (Some r, Some m, map (\<lambda>w. \<lparr>word = w, root = r\<rparr>) (filter (\<lambda>w. w \<noteq> []) (tl ls)))"
  by (cases ls) (auto simp: parse_derived_block_def split: option.splits)

lemma scan_closed_block:
  assumes "i < length ls" and "startswith (strip (ls ! i)) ''{''"
    and "body = takeWhile (\<lambda>l. \<not> startswith (strip l) ''}'') (drop (i + 1) ls)" and "body \<noteq> []"
  shows "scan ls i db cx =
     scan ls (i + length body + 2) (db @ [parse_derived_block (map strip body)]) cx"
  using assms(3,4) unfolding scan_open_block [OF assms(1,2)] by simp

text \<open>
  C6 (as amended).  When the first line of a block does not match \<open>(ROOT): MEANING\<close>, the
  root-derivation parser returns that line verbatim as the root, the empty string as the root
  meaning, and one derived word, with that line as its root, for every later non-empty line.
  So every non-empty list of block lines yields a root and a list of derived words, and the
  scanner appends one such result for every \<open>{\<close> block that holds at least one line (the
  lines are passed without their surrounding white space).  A block with no line yields
  nothing: the scanner skips it.
\<close>

theorem derived_block_fallback:
  "(match_root first = None \<longrightarrow>
      parse_derived_block (first # rest) =
        (Some first, Some [],
         map (\<lambda>w. \<lparr>word = w, root = first\<rparr>) (filter (\<lambda>w. w \<noteq> []) rest))) \<and>
   (lines \<noteq> [] \<longrightarrow>
      (\<exists>r m. parse_derived_block lines =
         (Some r, Some m, map (\<lambda>w. \<lparr>word = w, root = r\<rparr>) (filter (\<lambda>w. w \<noteq> []) (tl lines))))) \<and>
   (i < length ls \<and> startswith (strip (ls ! i)) ''{'' \<and>
    body = takeWhile (\<lambda>l. \<not> startswith (strip l) ''}'') (drop (i + 1) ls) \<and> body \<noteq> [] \<longrightarrow>
      scan ls i db cx =
        scan ls (i + length body + 2) (db @ [parse_derived_block (map strip body)]) cx)"
  using parse_derived_block_fallback [of first rest] parse_derived_block_root [of lines]
    scan_closed_block [of i ls body db cx]
  by blast

theorem derived_block_fallback_witness:
  "match_root ''spectacle'' = None \<and>
   parse_derived_block [''spectacle'', ''spectator''] =
     (Some ''spectacle'', Some [], [\<lparr>word = ''spectator'', root = ''spectacle''\<rparr>]) \<and>
   scan [''{'', ''spectacle'', ''spectator'', ''}''] 0 [] [] =
     Inr ([(Some ''spectacle'', Some [], [\<lparr>word = ''spectator'', root = ''spectacle''\<rparr>])], [])"
proof -
  have m: "match_root ''spectacle'' = None" by (simp add: match_root_def)
  have s: "strip ''{'' = ''{''" "strip ''}'' = ''}''" "strip ''spectacle'' = ''spectacle''"
    "strip ''spectator'' = ''spectator''"
    by (simp_all add: strip_def strip_chars_def isspace_def)
  show ?thesis
    using derived_block_fallback [where first = "''spectacle''" and rest = "[''spectator'']"
        and lines = "[''spectacle'', ''spectator'']" and i = 0
        and ls = "[''{'', ''spectacle'', ''spectator'', ''}'']"
        and body = "[''spectacle'', ''spectator'']" and db = "[]" and cx = "[]"] m
    by (simp add: s scan_end startswith_def)
qed

theorem derived_block_fallback_counterexample:
  "parse_blocks_and_contexts [''{'', ''}''] = Inr ([], []) \<and>
   parse_derived_block [] = (None, None, [])"
  by code_simp


section \<open>Properties of the corpus loader and of the queries\<close>

lemma dict_get_dict_append:
  "dict_get (dict_append d k v) k' = (if k' = k then dict_get d k @ [v] else dict_get d k')"
  by (simp add: dict_get_def dict_append_def)

lemma dict_get_derived:
  "dict_get (foldl derived_step d dws) k =
     dict_get d k @ map (\<lambda>dw. Some (word dw)) (filter (\<lambda>dw. Some (derived_word.root dw) = k) dws)"
  by (induction dws arbitrary: d) (auto simp: derived_step_def dict_get_dict_append)

lemma dict_get_block_step:
  "dict_get (snd (block_step (gd, rd) b)) k = dict_get rd k @ block_words (anchor gd) k b"
  by (cases b) (simp add: block_step_def block_words_def dict_get_derived dict_get_dict_append)

lemma anchor_block_step: "anchor (fst (block_step (gd, rd) b)) = anchor gd"
  by (cases b) (simp add: block_step_def)

lemma dict_get_blocks:
  "dict_get (snd (foldl block_step (gd, rd) db)) k =
     dict_get rd k @ concat (map (block_words (anchor gd) k) db)"
proof (induction db arbitrary: gd rd)
  case Nil
  show ?case by simp
next
  case (Cons b db)
  obtain gd' rd' where st: "block_step (gd, rd) b = (gd', rd')" by (cases "block_step (gd, rd) b")
  have a: "anchor gd' = anchor gd" using anchor_block_step [of gd rd b] st by simp
  have r: "dict_get rd' k = dict_get rd k @ block_words (anchor gd) k b"
    using dict_get_block_step [of gd rd b k] st by simp
  show ?case by (simp only: foldl_Cons st Cons.IH a r) simp
qed

lemma group_blocks:
  "fst (foldl block_step (gd, rd) db) =
     gd\<lparr>roots := roots gd @ map (\<lambda>(r, root_meaning, derived_words).
              \<lparr>root_ref.root = r, meaning = root_meaning\<rparr>) db,
        derived := derived gd @ concat (map (\<lambda>(r, root_meaning, derived_words). derived_words) db)\<rparr>"
proof (induction db arbitrary: gd rd)
  case Nil
  show ?case by simp
next
  case (Cons b db)
  obtain r root_meaning dws where b: "b = (r, root_meaning, dws)" by (cases b)
  obtain gd' rd' where st: "block_step (gd, rd) b = (gd', rd')" by (cases "block_step (gd, rd) b")
  have g: "gd' = gd\<lparr>roots := roots gd @ [\<lparr>root_ref.root = r, meaning = root_meaning\<rparr>],
      derived := derived gd @ dws\<rparr>"
    using st b by (simp add: block_step_def)
  show ?case by (simp only: foldl_Cons st Cons.IH) (simp add: g b)
qed

lemma extends_refl: "extends d d"
  by (simp add: extends_def)

lemma extends_trans: "extends d d' \<Longrightarrow> extends d' d'' \<Longrightarrow> extends d d''"
  unfolding extends_def by (metis append_assoc)

lemma extends_dict_append: "extends d (dict_append d k v)"
  by (auto simp: extends_def dict_append_def dict_get_def)

lemma extends_derived: "extends d (foldl derived_step d dws)"
proof (induction dws arbitrary: d)
  case Nil
  show ?case by (simp add: extends_refl)
next
  case (Cons dw dws)
  show ?case
    using extends_trans [OF extends_dict_append Cons.IH] by (simp add: derived_step_def)
qed

lemma extends_block_step: "extends rd (snd (block_step (gd, rd) b))"
  by (cases b) (simp add: block_step_def extends_trans [OF extends_dict_append extends_derived])

lemma extends_blocks: "extends rd (snd (foldl block_step (gd, rd) db))"
proof (induction db arbitrary: gd rd)
  case Nil
  show ?case by (simp add: extends_refl)
next
  case (Cons b db)
  obtain gd' rd' where st: "block_step (gd, rd) b = (gd', rd')" by (cases "block_step (gd, rd) b")
  have "extends rd rd'" using extends_block_step [of rd gd b] st by simp
  then show ?case
    using extends_trans [OF _ Cons.IH [where gd = gd' and rd = rd']] by (simp only: foldl_Cons st)
qed

lemma extends_dict_get:
  assumes "extends d d'"
  shows "\<exists>ws. dict_get d' k = dict_get d k @ ws"
proof (cases "d k")
  case None
  then show ?thesis by (simp add: dict_get_def)
next
  case (Some ws)
  then obtain ws' where "d' k = Some (ws @ ws')" using assms unfolding extends_def by blast
  then show ?thesis using Some by (simp add: dict_get_def)
qed

lemma parse_group_empty: "group_lines g = [] \<Longrightarrow> parse_group st g = Inr st"
  by (simp add: parse_group_def)

lemma parse_group_eq:
  assumes "group_lines g = al # rest" and "parse_blocks_and_contexts rest = Inr (db, cx)"
  shows "parse_group st g =
     Inr \<lparr>groups = groups st @ [group_view al db cx],
          anchor_dict = (anchor_dict st)(pal_anchor (parse_anchor_line al) \<mapsto> group_view al db cx),
          root_dict = snd (foldl block_step (group_view al [] cx, root_dict st) db)\<rparr>"
proof -
  obtain a syn ant mean where p: "parse_anchor_line al = (a, syn, ant, mean)"
    by (cases "parse_anchor_line al")
  have v: "\<lparr>anchor = a, synonyms = syn, antonyms = ant, meanings = mean,
      roots = [], derived = [], contexts = cx\<rparr> = group_view al [] cx"
    by (simp add: group_view_def p pal_anchor_def pal_synonyms_def pal_antonyms_def pal_meanings_def)
  have f: "fst (foldl block_step (group_view al [] cx, root_dict st) db) = group_view al db cx"
    unfolding group_blocks by (simp add: group_view_def)
  show ?thesis
    unfolding parse_group_def assms(1) list.case p prod.case assms(2) sum.case v
    by (simp add: case_prod_unfold f pal_anchor_def)
qed

lemma parse_group_total:
  "\<exists>st'. parse_group st g = Inr st' \<and> extends (root_dict st) (root_dict st')"
proof (cases "group_lines g")
  case Nil
  then show ?thesis by (simp add: parse_group_empty extends_refl)
next
  case (Cons al rest)
  obtain db cx where s: "parse_blocks_and_contexts rest = Inr (db, cx)"
    using scan_total [of rest 0 "[]" "[]"] by (auto simp: parse_blocks_and_contexts_def)
  show ?thesis
    unfolding parse_group_eq [OF Cons s] by (simp add: extends_blocks)
qed

lemma parse_groups_total:
  "\<exists>st'. parse_groups st gs = Inr st' \<and> extends (root_dict st) (root_dict st')"
proof (induction gs arbitrary: st)
  case Nil
  show ?case by (simp add: extends_refl)
next
  case (Cons g gs)
  obtain st1 where 1: "parse_group st g = Inr st1" "extends (root_dict st) (root_dict st1)"
    using parse_group_total [of st g] by blast
  obtain st2 where 2: "parse_groups st1 gs = Inr st2" "extends (root_dict st1) (root_dict st2)"
    using Cons.IH [of st1] by blast
  show ?case using 1 2 extends_trans by auto
qed

lemma parse_groups_append:
  "parse_groups st gs = Inr st' \<Longrightarrow> parse_groups st (gs @ hs) = parse_groups st' hs"
  by (induction gs arbitrary: st) (auto split: sum.splits)


lemma parse_group_words:
  assumes "parse_group st g = Inr st'"
  shows "dict_get (root_dict st') k = dict_get (root_dict st) k @ group_words k g"
proof (cases "group_lines g")
  case Nil
  then show ?thesis using assms by (simp add: parse_group_empty group_words_def)
next
  case (Cons al rest)
  obtain db cx where s: "parse_blocks_and_contexts rest = Inr (db, cx)"
    using scan_total [of rest 0 "[]" "[]"] by (auto simp: parse_blocks_and_contexts_def)
  have rd: "root_dict st' = snd (foldl block_step (group_view al [] cx, root_dict st) db)"
    using assms unfolding parse_group_eq [OF Cons s] by auto
  have a: "anchor (group_view al [] cx) = pal_anchor (parse_anchor_line al)"
    by (simp add: group_view_def)
  show ?thesis
    unfolding rd dict_get_blocks a by (simp add: group_words_def Cons s)
qed

lemma parse_groups_words:
  "parse_groups st gs = Inr st' \<Longrightarrow>
   dict_get (root_dict st') k = dict_get (root_dict st) k @ concat (map (group_words k) gs)"
proof (induction gs arbitrary: st)
  case Nil
  then show ?case by simp
next
  case (Cons g gs)
  obtain st1 where 1: "parse_group st g = Inr st1"
    using parse_group_total [of st g] by blast
  have 2: "parse_groups st1 gs = Inr st'" using Cons.prems 1 by simp
  show ?case
    unfolding Cons.IH [OF 2] parse_group_words [OF 1] by simp
qed

lemma parse_group_other_anchor:
  assumes "other_anchor a g"
  shows "\<exists>st'. parse_group st g = Inr st' \<and> anchor_dict st' (Some a) = anchor_dict st (Some a)"
proof (cases "group_lines g")
  case Nil
  then show ?thesis by (simp add: parse_group_empty)
next
  case (Cons al rest)
  obtain db cx where s: "parse_blocks_and_contexts rest = Inr (db, cx)"
    using scan_total [of rest 0 "[]" "[]"] by (auto simp: parse_blocks_and_contexts_def)
  have n: "pal_anchor (parse_anchor_line al) \<noteq> Some a"
    using assms Cons by (simp add: other_anchor_def)
  show ?thesis
    unfolding parse_group_eq [OF Cons s] using n by simp
qed

lemma parse_groups_other_anchor:
  "\<forall>h\<in>set hs. other_anchor a h \<Longrightarrow>
   \<exists>st'. parse_groups st hs = Inr st' \<and> anchor_dict st' (Some a) = anchor_dict st (Some a)"
proof (induction hs arbitrary: st)
  case Nil
  show ?case by simp
next
  case (Cons h hs)
  obtain st1 where 1: "parse_group st h = Inr st1"
    and k1: "anchor_dict st1 (Some a) = anchor_dict st (Some a)"
    using parse_group_other_anchor [of a h st] Cons.prems by auto
  obtain st2 where 2: "parse_groups st1 hs = Inr st2"
    and k2: "anchor_dict st2 (Some a) = anchor_dict st1 (Some a)"
    using Cons.IH [of st1] Cons.prems by auto
  show ?case using 1 2 k1 k2 by simp
qed

lemma query_root_parse:
  assumes "parse text = Inr st"
  shows "dict_get (root_dict st) k = concat (map (group_words k) (re_split [] (strip text)))"
  using parse_groups_words [OF assms [unfolded parse_def], of k]
  by (simp add: init_def dict_get_def)

subsection \<open>Example corpora\<close>

text \<open>
  Three corpus texts, evaluated stage by stage: how the loader splits them into groups, the
  lines of each group, and what the scanner and the anchor-line parser return on them.
\<close>

lemma obdurate_context:
  "parse_blocks_and_contexts [''['', CHR 0x22 # ''He was obdurate.'' @ [CHR 0x22], '']''] =
     Inr ([], [''He was obdurate.''])"
  by code_simp

lemma obdurate_lines:
  "group_lines (''obdurate hard'' @ [CHR 0x0A] @ ''['' @ [CHR 0x0A] @
       CHR 0x22 # ''He was obdurate.'' @ [CHR 0x22] @ [CHR 0x0A] @ '']'') =
     ''obdurate hard'' # [''['', CHR 0x22 # ''He was obdurate.'' @ [CHR 0x22], '']'']"
  by code_simp

lemma obdurate_split:
  "re_split [] (strip (''obdurate hard'' @ [CHR 0x0A] @ ''['' @ [CHR 0x0A] @
       CHR 0x22 # ''He was obdurate.'' @ [CHR 0x22] @ [CHR 0x0A] @ '']'')) =
   [''obdurate hard'' @ [CHR 0x0A] @ ''['' @ [CHR 0x0A] @
       CHR 0x22 # ''He was obdurate.'' @ [CHR 0x22] @ [CHR 0x0A] @ '']'']"
  by code_simp

lemma spec_lines:
  "group_lines (''clear'' @ [CHR 0x0A] @ ''{'' @ [CHR 0x0A] @ ''(spec): to see'' @ [CHR 0x0A] @
       ''spectacle'' @ [CHR 0x0A] @ ''spectator'' @ [CHR 0x0A] @ ''}'') =
     ''clear'' # [''{'', ''(spec): to see'', ''spectacle'', ''spectator'', ''}'']"
  by code_simp

lemma spec_split:
  "re_split [] (strip (''clear'' @ [CHR 0x0A] @ ''{'' @ [CHR 0x0A] @ ''(spec): to see'' @ [CHR 0x0A] @
       ''spectacle'' @ [CHR 0x0A] @ ''spectator'' @ [CHR 0x0A] @ ''}'')) =
   [''clear'' @ [CHR 0x0A] @ ''{'' @ [CHR 0x0A] @ ''(spec): to see'' @ [CHR 0x0A] @
       ''spectacle'' @ [CHR 0x0A] @ ''spectator'' @ [CHR 0x0A] @ ''}'']"
  by code_simp

lemma spec_block:
  "parse_blocks_and_contexts [''{'', ''(spec): to see'', ''spectacle'', ''spectator'', ''}''] =
     Inr ([(Some ''spec'', Some ''to see'',
            [\<lparr>word = ''spectacle'', root = ''spec''\<rparr>, \<lparr>word = ''spectator'', root = ''spec''\<rparr>])], [])"
  by code_simp

lemma clear_split:
  "re_split [] (strip ((''clear a'' @ [CHR 0x0A] @ ''{'' @ [CHR 0x0A] @ ''(spec): to see'' @ [CHR 0x0A] @ ''spectacle'' @ [CHR 0x0A] @ ''}'') @ [CHR 0x0A, CHR 0x0A] @ ''clear b'' @ [CHR 0x0A, CHR 0x0A] @ ''view c'')) =
     [''clear a'' @ [CHR 0x0A] @ ''{'' @ [CHR 0x0A] @ ''(spec): to see'' @ [CHR 0x0A] @ ''spectacle'' @ [CHR 0x0A] @ ''}'', ''clear b'', ''view c'']"
  by code_simp

lemma clear_lines:
  "group_lines (''clear a'' @ [CHR 0x0A] @ ''{'' @ [CHR 0x0A] @ ''(spec): to see'' @ [CHR 0x0A] @ ''spectacle'' @ [CHR 0x0A] @ ''}'') =
     ''clear a'' # [''{'', ''(spec): to see'', ''spectacle'', ''}'']"
  "group_lines ''clear b'' = ''clear b'' # []"
  "group_lines ''view c'' = ''view c'' # []"
  by code_simp+

lemma clear_blocks:
  "parse_blocks_and_contexts [''{'', ''(spec): to see'', ''spectacle'', ''}''] =
     Inr ([(Some ''spec'', Some ''to see'', [\<lparr>word = ''spectacle'', root = ''spec''\<rparr>])], [])"
  "parse_blocks_and_contexts [] = Inr ([], [])"
  by code_simp+

lemma clear_anchor:
  "pal_anchor (parse_anchor_line ''clear a'') = Some ''clear''"
  "pal_anchor (parse_anchor_line ''clear b'') = Some ''clear''"
  "pal_synonyms (parse_anchor_line ''clear b'') = [''b'']"
  "pal_anchor (parse_anchor_line ''view c'') = Some ''view''"
  by code_simp+

subsection \<open>Loading and lookups\<close>

lemma scan_closed_context:
  assumes "i < length ls" and "\<not> startswith (strip (ls ! i)) ''{''"
    and "startswith (strip (ls ! i)) ''[''"
    and "body = takeWhile (\<lambda>l. \<not> startswith (strip l) '']'') (drop (i + 1) ls)"
  shows "scan ls i db cx =
     scan ls (i + length body + 2) db
       (cx @ map (\<lambda>l. strip_chars (\<lambda>c. c = CHR 0x22) (strip l)) body)"
  unfolding assms(4) by (rule scan_open_context [OF assms(1,2,3)])

text \<open>
  C8.  A group whose lines after the anchor line are \<open>[\<close>, \<open>"He was obdurate."\<close> and \<open>]\<close> is
  loaded as an entry whose contexts are exactly \<open>He was obdurate.\<close>; the entry is appended
  to the groups and published under its anchor.  In general a \<open>[\<close> block adds each of its
  lines to the contexts without the surrounding white space and then without the enclosing
  double quotes.
\<close>

theorem context_block:
  "(group_lines g = al # [''['', CHR 0x22 # ''He was obdurate.'' @ [CHR 0x22], '']''] \<longrightarrow>
      (\<exists>gd. parse_group st g =
              Inr \<lparr>groups = groups st @ [gd],
                   anchor_dict = (anchor_dict st)(pal_anchor (parse_anchor_line al) \<mapsto> gd),
                   root_dict = root_dict st\<rparr> \<and>
            contexts gd = [''He was obdurate.''])) \<and>
   (i < length ls \<and> \<not> startswith (strip (ls ! i)) ''{'' \<and> startswith (strip (ls ! i)) ''['' \<and>
    body = takeWhile (\<lambda>l. \<not> startswith (strip l) '']'') (drop (i + 1) ls) \<longrightarrow>
      scan ls i db cx =
        scan ls (i + length body + 2) db
          (cx @ map (\<lambda>l. strip_chars (\<lambda>c. c = CHR 0x22) (strip l)) body))"
proof (intro conjI impI)
  assume l: "group_lines g = al # [''['', CHR 0x22 # ''He was obdurate.'' @ [CHR 0x22], '']'']"
  have "parse_group st g =
      Inr \<lparr>groups = groups st @ [group_view al [] [''He was obdurate.'']],
           anchor_dict = (anchor_dict st)(pal_anchor (parse_anchor_line al) \<mapsto>
             group_view al [] [''He was obdurate.'']),
           root_dict = root_dict st\<rparr>"
    unfolding parse_group_eq [OF l obdurate_context] by simp
  moreover have "contexts (group_view al [] [''He was obdurate.'']) = [''He was obdurate.'']"
    by (simp add: group_view_def)
  ultimately show "\<exists>gd. parse_group st g =
              Inr \<lparr>groups = groups st @ [gd],
                   anchor_dict = (anchor_dict st)(pal_anchor (parse_anchor_line al) \<mapsto> gd),
                   root_dict = root_dict st\<rparr> \<and>
            contexts gd = [''He was obdurate.'']"
    by blast
next
  assume "i < length ls \<and> \<not> startswith (strip (ls ! i)) ''{'' \<and> startswith (strip (ls ! i)) ''['' \<and>
    body = takeWhile (\<lambda>l. \<not> startswith (strip l) '']'') (drop (i + 1) ls)"
  then show "scan ls i db cx =
        scan ls (i + length body + 2) db
          (cx @ map (\<lambda>l. strip_chars (\<lambda>c. c = CHR 0x22) (strip l)) body)"
    using scan_closed_context by blast
qed

theorem context_block_witness:
  "(case parse (''obdurate hard'' @ [CHR 0x0A] @ ''['' @ [CHR 0x0A] @
       CHR 0x22 # ''He was obdurate.'' @ [CHR 0x22] @ [CHR 0x0A] @ '']'') of
      Inl e \<Rightarrow> False
    | Inr st \<Rightarrow> map contexts (groups st) = [[''He was obdurate.'']] \<and>
        map_option contexts (query_anchor st ''obdurate'') = Some [''He was obdurate.'']) \<and>
   scan [''['', [CHR 0x22, CHR ''a'', CHR 0x22], '']''] 0 [] [] = Inr ([], [''a''])"
proof -
  let ?g = "''obdurate hard'' @ [CHR 0x0A] @ ''['' @ [CHR 0x0A] @
       CHR 0x22 # ''He was obdurate.'' @ [CHR 0x22] @ [CHR 0x0A] @ '']''"
  have a: "pal_anchor (parse_anchor_line ''obdurate hard'') = Some ''obdurate''" by code_simp
  obtain gd where p: "parse_group init ?g =
      Inr \<lparr>groups = groups init @ [gd],
           anchor_dict = (anchor_dict init)(pal_anchor (parse_anchor_line ''obdurate hard'') \<mapsto> gd),
           root_dict = root_dict init\<rparr>" and c: "contexts gd = [''He was obdurate.'']"
    using context_block [of ?g "''obdurate hard''" init] obdurate_lines by blast
  have pg: "parse ?g = Inr \<lparr>groups = groups init @ [gd],
           anchor_dict = (anchor_dict init)(pal_anchor (parse_anchor_line ''obdurate hard'') \<mapsto> gd),
           root_dict = root_dict init\<rparr>"
    by (simp only: parse_def obdurate_split parse_groups.simps p sum.case)
  have 1: "(case parse ?g of
      Inl e \<Rightarrow> False
    | Inr st \<Rightarrow> map contexts (groups st) = [[''He was obdurate.'']] \<and>
        map_option contexts (query_anchor st ''obdurate'') = Some [''He was obdurate.''])"
    unfolding pg a by (simp add: c query_anchor_def init_def)
  have s: "strip ''['' = ''[''" "strip '']'' = '']''"
    "strip [CHR 0x22, CHR ''a'', CHR 0x22] = [CHR 0x22, CHR ''a'', CHR 0x22]"
    by (simp_all add: strip_def strip_chars_def isspace_def)
  have h: "0 < length [''['', [CHR 0x22, CHR ''a'', CHR 0x22], '']''] \<and>
      \<not> startswith (strip ([''['', [CHR 0x22, CHR ''a'', CHR 0x22], '']''] ! 0)) ''{'' \<and>
      startswith (strip ([''['', [CHR 0x22, CHR ''a'', CHR 0x22], '']''] ! 0)) ''['' \<and>
      [[CHR 0x22, CHR ''a'', CHR 0x22]] =
        takeWhile (\<lambda>l. \<not> startswith (strip l) '']'')
          (drop (0 + 1) [''['', [CHR 0x22, CHR ''a'', CHR 0x22], '']''])"
    by (simp add: s startswith_def)
  have e: "scan [''['', [CHR 0x22, CHR ''a'', CHR 0x22], '']'']
      (0 + length [[CHR 0x22, CHR ''a'', CHR 0x22]] + 2) []
      ([] @ map (\<lambda>l. strip_chars (\<lambda>c. c = CHR 0x22) (strip l)) [[CHR 0x22, CHR ''a'', CHR 0x22]]) =
      Inr ([], [''a''])"
    by (simp add: scan_end s strip_chars_def)
  have 2: "scan [''['', [CHR 0x22, CHR ''a'', CHR 0x22], '']''] 0 [] [] = Inr ([], [''a''])"
    unfolding context_block [where g = "[]" and al = "[]" and st = init,
        THEN conjunct2, THEN mp, OF h]
    by (rule e)
  from 1 2 show ?thesis by blast
qed


text \<open>
  C5.  For every state of the indices, so for every loaded corpus, and every root \<open>r\<close>, the
  root lookup reports that nothing was found exactly when \<open>r\<close> is absent from the root index
  or maps to the empty list; otherwise it returns the set of the words recorded for \<open>r\<close>.
\<close>

theorem query_root_not_found:
  "(query_root st r = None \<longleftrightarrow>
      root_dict st (Some r) = None \<or> root_dict st (Some r) = Some []) \<and>
   (query_root st r \<noteq> None \<longrightarrow>
      (\<exists>ws. root_dict st (Some r) = Some ws \<and> query_root st r = Some (set ws)))"
  by (cases "root_dict st (Some r)") (auto simp: query_root_def dict_get_def Let_def)

theorem query_root_not_found_witness:
  "(case parse (''clear'' @ [CHR 0x0A] @ ''{'' @ [CHR 0x0A] @ ''(spec): to see'' @ [CHR 0x0A] @
       ''spectacle'' @ [CHR 0x0A] @ ''spectator'' @ [CHR 0x0A] @ ''}'') of
      Inl e \<Rightarrow> False
    | Inr st \<Rightarrow> root_dict st (Some ''vid'') = None \<and> query_root st ''vid'' = None \<and>
        root_dict st (Some ''spec'') = Some [Some ''clear'', Some ''spectacle'', Some ''spectator''] \<and>
        query_root st ''spec'' = Some (set [Some ''clear'', Some ''spectacle'', Some ''spectator'']))"
proof -
  let ?g = "''clear'' @ [CHR 0x0A] @ ''{'' @ [CHR 0x0A] @ ''(spec): to see'' @ [CHR 0x0A] @
       ''spectacle'' @ [CHR 0x0A] @ ''spectator'' @ [CHR 0x0A] @ ''}''"
  obtain st where p: "parse ?g = Inr st"
    using parse_groups_total [of init "re_split [] (strip ?g)"] unfolding parse_def by blast
  have g: "parse_group init ?g = Inr st"
    using p unfolding parse_def spec_split by (simp split: sum.splits)
  have r: "root_dict st = snd (foldl block_step (group_view ''clear'' [] [], root_dict init)
      [(Some ''spec'', Some ''to see'',
            [\<lparr>word = ''spectacle'', root = ''spec''\<rparr>, \<lparr>word = ''spectator'', root = ''spec''\<rparr>])])"
    using g unfolding parse_group_eq [OF spec_lines spec_block] by auto
  have a: "anchor (group_view ''clear'' [] []) = Some ''clear''"
    unfolding group_view_def by (simp add: pal_anchor_def) code_simp
  have 1: "root_dict st (Some ''vid'') = None"
    unfolding r by (simp add: block_step_def dict_append_def dict_get_def derived_step_def init_def)
  have 2: "root_dict st (Some ''spec'') = Some [Some ''clear'', Some ''spectacle'', Some ''spectator'']"
    unfolding r by (simp add: block_step_def dict_append_def dict_get_def derived_step_def init_def a)
  have 3: "query_root st ''vid'' = None"
    using query_root_not_found [of st "''vid''"] 1 by blast
  have 4: "query_root st ''spec'' = Some (set [Some ''clear'', Some ''spectacle'', Some ''spectator''])"
    using query_root_not_found [of st "''spec''"] 2 by auto
  show ?thesis unfolding p using 1 2 3 4 by simp
qed


lemma spec_derived_block:
  "parse_derived_block [''(spec): to see'', ''spectacle'', ''spectator''] =
     (Some ''spec'', Some ''to see'',
      [\<lparr>word = ''spectacle'', root = ''spec''\<rparr>, \<lparr>word = ''spectator'', root = ''spec''\<rparr>])"
  by code_simp

lemma root_lookup_corpus:
  assumes g: "g \<in> set (re_split [] (strip text))" and l: "group_lines g = al # rest"
    and s: "parse_blocks_and_contexts rest = Inr (db, cx)" and b: "b \<in> set db"
    and w: "w \<in> set (block_words (pal_anchor (parse_anchor_line al)) (Some r) b)"
  shows "\<exists>st. parse text = Inr st \<and>
      query_root st r =
        Some (\<Union>h\<in>set (re_split [] (strip text)). set (group_words (Some r) h)) \<and>
      set (block_words (pal_anchor (parse_anchor_line al)) (Some r) b) \<subseteq>
        (\<Union>h\<in>set (re_split [] (strip text)). set (group_words (Some r) h))"
proof -
  obtain st where p: "parse text = Inr st"
    using parse_groups_total [of init "re_split [] (strip text)"] unfolding parse_def by blast
  have d: "set (dict_get (root_dict st) (Some r)) =
      (\<Union>h\<in>set (re_split [] (strip text)). set (group_words (Some r) h))"
    unfolding query_root_parse [OF p] by simp
  have gw: "group_words (Some r) g =
      concat (map (block_words (pal_anchor (parse_anchor_line al)) (Some r)) db)"
    by (simp add: group_words_def l s)
  have sub1: "set (block_words (pal_anchor (parse_anchor_line al)) (Some r) b) \<subseteq>
      set (group_words (Some r) g)"
    unfolding gw using b by auto
  have sub: "set (block_words (pal_anchor (parse_anchor_line al)) (Some r) b) \<subseteq>
      (\<Union>h\<in>set (re_split [] (strip text)). set (group_words (Some r) h))"
    using sub1 g by blast
  then have "w \<in> set (dict_get (root_dict st) (Some r))" using w unfolding d by blast
  then have ne: "set (dict_get (root_dict st) (Some r)) \<noteq> {}" by auto
  have q: "query_root st r =
      Some (\<Union>h\<in>set (re_split [] (strip text)). set (group_words (Some r) h))"
    using ne unfolding query_root_def Let_def d by simp
  show ?thesis by (rule exI [of _ st]) (intro conjI p q sub)
qed

text \<open>
  C4 (as amended).  Let a corpus have a group with anchor \<open>clear\<close> in which the scanner finds
  the root block with the lines \<open>(spec): to see\<close>, \<open>spectacle\<close>, \<open>spectator\<close>.  After loading
  it, the root lookup for \<open>spec\<close> returns the set of all the words that the groups of the
  corpus record under \<open>spec\<close>; this set contains \<open>clear\<close>, \<open>spectacle\<close> and \<open>spectator\<close>,
  and it is exactly these three when no group of the corpus records another word under
  \<open>spec\<close>.
\<close>

theorem spec_root_lookup:
  assumes g: "g \<in> set (re_split [] (strip text))" and l: "group_lines g = al # rest"
    and a: "pal_anchor (parse_anchor_line al) = Some ''clear''"
    and s: "parse_blocks_and_contexts rest = Inr (db, cx)"
    and b: "parse_derived_block [''(spec): to see'', ''spectacle'', ''spectator''] \<in> set db"
  shows "\<exists>st. parse text = Inr st \<and>
      query_root st ''spec'' =
        Some (\<Union>h\<in>set (re_split [] (strip text)). set (group_words (Some ''spec'') h)) \<and>
      {Some ''clear'', Some ''spectacle'', Some ''spectator''} \<subseteq>
        (\<Union>h\<in>set (re_split [] (strip text)). set (group_words (Some ''spec'') h)) \<and>
      ((\<forall>h\<in>set (re_split [] (strip text)).
          set (group_words (Some ''spec'') h) \<subseteq>
            {Some ''clear'', Some ''spectacle'', Some ''spectator''}) \<longrightarrow>
         query_root st ''spec'' = Some {Some ''clear'', Some ''spectacle'', Some ''spectator''})"
proof -
  let ?W = "\<Union>h\<in>set (re_split [] (strip text)). set (group_words (Some ''spec'') h)"
  let ?b = "parse_derived_block [''(spec): to see'', ''spectacle'', ''spectator'']"
  have bw: "block_words (pal_anchor (parse_anchor_line al)) (Some ''spec'') ?b =
      [Some ''clear'', Some ''spectacle'', Some ''spectator'']"
    unfolding a spec_derived_block by (simp add: block_words_def)
  have w: "Some ''clear'' \<in> set (block_words (pal_anchor (parse_anchor_line al)) (Some ''spec'') ?b)"
    unfolding bw by simp
  obtain st where p: "parse text = Inr st" and q: "query_root st ''spec'' = Some ?W"
    and sub: "set (block_words (pal_anchor (parse_anchor_line al)) (Some ''spec'') ?b) \<subseteq> ?W"
    using root_lookup_corpus [OF g l s b w] by blast
  have sub': "{Some ''clear'', Some ''spectacle'', Some ''spectator''} \<subseteq> ?W"
    using sub unfolding bw by simp
  have ex: "(\<forall>h\<in>set (re_split [] (strip text)).
          set (group_words (Some ''spec'') h) \<subseteq>
            {Some ''clear'', Some ''spectacle'', Some ''spectator''}) \<longrightarrow>
         query_root st ''spec'' = Some {Some ''clear'', Some ''spectacle'', Some ''spectator''}"
  proof
    assume h: "\<forall>h\<in>set (re_split [] (strip text)).
          set (group_words (Some ''spec'') h) \<subseteq>
            {Some ''clear'', Some ''spectacle'', Some ''spectator''}"
    have "?W \<subseteq> {Some ''clear'', Some ''spectacle'', Some ''spectator''}"
    proof (rule UN_least)
      fix x
      assume x: "x \<in> set (re_split [] (strip text))"
      show "set (group_words (Some ''spec'') x) \<subseteq>
          {Some ''clear'', Some ''spectacle'', Some ''spectator''}"
        using h x by (rule bspec)
    qed
    then have "?W = {Some ''clear'', Some ''spectacle'', Some ''spectator''}"
      using sub' by (rule subset_antisym)
    then show "query_root st ''spec'' = Some {Some ''clear'', Some ''spectacle'', Some ''spectator''}"
      unfolding q by (rule arg_cong)
  qed
  show ?thesis by (rule exI [of _ st]) (intro conjI p q sub' ex)
qed

lemma spec_words:
  "group_words (Some ''spec'') (''clear'' @ [CHR 0x0A] @ ''{'' @ [CHR 0x0A] @ ''(spec): to see'' @ [CHR 0x0A] @
       ''spectacle'' @ [CHR 0x0A] @ ''spectator'' @ [CHR 0x0A] @ ''}'') =
     [Some ''clear'', Some ''spectacle'', Some ''spectator'']"
  unfolding group_words_def spec_lines list.case spec_block sum.case prod.case
  by (simp add: block_words_def) code_simp

theorem spec_root_lookup_witness:
  "(case parse (''clear'' @ [CHR 0x0A] @ ''{'' @ [CHR 0x0A] @ ''(spec): to see'' @ [CHR 0x0A] @
       ''spectacle'' @ [CHR 0x0A] @ ''spectator'' @ [CHR 0x0A] @ ''}'') of
      Inl e \<Rightarrow> False
    | Inr st \<Rightarrow>
        query_root st ''spec'' = Some {Some ''clear'', Some ''spectacle'', Some ''spectator''})"
proof -
  let ?g = "''clear'' @ [CHR 0x0A] @ ''{'' @ [CHR 0x0A] @ ''(spec): to see'' @ [CHR 0x0A] @
       ''spectacle'' @ [CHR 0x0A] @ ''spectator'' @ [CHR 0x0A] @ ''}''"
  have a: "pal_anchor (parse_anchor_line ''clear'') = Some ''clear''" by code_simp
  have g: "?g \<in> set (re_split [] (strip ?g))" unfolding spec_split by simp
  have b: "parse_derived_block [''(spec): to see'', ''spectacle'', ''spectator''] \<in>
      set [(Some ''spec'', Some ''to see'',
            [\<lparr>word = ''spectacle'', root = ''spec''\<rparr>, \<lparr>word = ''spectator'', root = ''spec''\<rparr>])]"
    unfolding spec_derived_block by simp
  have e: "\<forall>h\<in>set (re_split [] (strip ?g)).
      set (group_words (Some ''spec'') h) \<subseteq> {Some ''clear'', Some ''spectacle'', Some ''spectator''}"
    unfolding spec_split using spec_words by simp
  obtain st where p: "parse ?g = Inr st"
    and q: "query_root st ''spec'' = Some {Some ''clear'', Some ''spectacle'', Some ''spectator''}"
    using spec_root_lookup [OF g spec_lines a spec_block b] e by blast
  show ?thesis unfolding p using q by simp
qed

theorem spec_root_lookup_counterexample:
  "(case parse (''clear'' @ [CHR 0x0A] @ ''{'' @ [CHR 0x0A] @ ''(spec): to see'' @ [CHR 0x0A] @ ''spectacle'' @ [CHR 0x0A] @ ''spectator'' @ [CHR 0x0A] @ ''}'' @ [CHR 0x0A, CHR 0x0A] @ ''view'' @ [CHR 0x0A] @ ''{'' @ [CHR 0x0A] @ ''(spec): to look'' @ [CHR 0x0A] @ ''specimen'' @ [CHR 0x0A] @ ''}'') of
      Inl e \<Rightarrow> False
    | Inr st \<Rightarrow>
        map_option anchor (query_anchor st ''clear'') = Some (Some ''clear'') \<and>
        map_option roots (query_anchor st ''clear'') =
          Some [\<lparr>root_ref.root = Some ''spec'', meaning = Some ''to see''\<rparr>] \<and>
        map_option derived (query_anchor st ''clear'') =
          Some [\<lparr>word = ''spectacle'', root = ''spec''\<rparr>, \<lparr>word = ''spectator'', root = ''spec''\<rparr>] \<and>
        query_root st ''spec'' =
          Some {Some ''clear'', Some ''spectacle'', Some ''spectator'', Some ''view'',
                Some ''specimen''} \<and>
        query_root st ''spec'' \<noteq> Some {Some ''clear'', Some ''spectacle'', Some ''spectator''})"
  by code_simp

lemma block_words_anchor: "a \<in> set (block_words a r (r, m, dws))"
  by (simp add: block_words_def)

lemma block_words_derived:
  "dw \<in> set dws \<Longrightarrow> Some (word dw) \<in> set (block_words a (Some (derived_word.root dw)) (r, m, dws))"
  by (simp add: block_words_def)

lemma extends_mem:
  assumes "extends d d'" and "w \<in> set (dict_get d k)"
  shows "w \<in> set (dict_get d' k)"
proof -
  obtain ws where "dict_get d' k = dict_get d k @ ws" using extends_dict_get [OF assms(1)] by blast
  then show ?thesis using assms(2) by simp
qed

lemma parse_group_contributes:
  assumes "group_lines g = al # rest" and "parse_blocks_and_contexts rest = Inr (db, cx)"
    and "parse_group st g = Inr st'" and "(r, m, dws) \<in> set db"
  shows "pal_anchor (parse_anchor_line al) \<in> set (dict_get (root_dict st') r) \<and>
     (\<forall>dw\<in>set dws. Some (word dw) \<in> set (dict_get (root_dict st') (Some (derived_word.root dw))))"
proof -
  have rd: "root_dict st' = snd (foldl block_step (group_view al [] cx, root_dict st) db)"
    using assms(3) unfolding parse_group_eq [OF assms(1,2)] by auto
  have a: "anchor (group_view al [] cx) = pal_anchor (parse_anchor_line al)"
    by (simp add: group_view_def)
  have d: "dict_get (root_dict st') k =
      dict_get (root_dict st) k @ concat (map (block_words (pal_anchor (parse_anchor_line al)) k) db)" for k
    unfolding rd dict_get_blocks a by simp
  have 1: "pal_anchor (parse_anchor_line al) \<in> set (dict_get (root_dict st') r)"
    unfolding d using assms(4) block_words_anchor [of "pal_anchor (parse_anchor_line al)" r m dws]
    by (auto intro: bexI [of _ "(r, m, dws)"])
  have 2: "Some (word dw) \<in> set (dict_get (root_dict st') (Some (derived_word.root dw)))"
    if "dw \<in> set dws" for dw
    unfolding d using assms(4) block_words_derived [OF that, of "pal_anchor (parse_anchor_line al)" r m]
    by (auto intro: bexI [of _ "(r, m, dws)"])
  from 1 2 show ?thesis by blast
qed

text \<open>
  C3.  Let two groups with the same anchor string \<open>a\<close> be loaded, with any groups in between
  and, after the second one, any groups that have other anchors.  Then the anchor lookup for
  \<open>a\<close> returns exactly the entry of the second group, while the root index still holds, for
  every root block of the first group, the anchor under the root of the block and every
  derived word under its root.  A load step keeps the entries of the anchor index under other
  anchors, and it removes or shortens no entry of the root index: it only appends words.
\<close>

theorem same_anchor_last_wins:
  assumes l1: "group_lines g1 = al1 # rest1" and l2: "group_lines g2 = al2 # rest2"
    and a1: "pal_anchor (parse_anchor_line al1) = Some a"
    and a2: "pal_anchor (parse_anchor_line al2) = Some a"
    and s1: "parse_blocks_and_contexts rest1 = Inr (db1, cx1)"
    and s2: "parse_blocks_and_contexts rest2 = Inr (db2, cx2)"
    and o: "\<forall>h\<in>set hs. other_anchor a h"
  shows "\<exists>st'. parse_groups st (g1 # gs @ g2 # hs) = Inr st' \<and>
      query_anchor st' a = Some (group_view al2 db2 cx2) \<and>
      (\<forall>(r, m, dws)\<in>set db1.
          Some a \<in> set (dict_get (root_dict st') r) \<and>
          (\<forall>dw\<in>set dws.
              Some (word dw) \<in> set (dict_get (root_dict st') (Some (derived_word.root dw))))) \<and>
      extends (root_dict st) (root_dict st') \<and>
      (\<forall>s g. \<exists>s'. parse_group s g = Inr s' \<and> extends (root_dict s) (root_dict s') \<and>
         (\<forall>b. other_anchor b g \<longrightarrow> query_anchor s' b = query_anchor s b))"
proof -
  obtain st1 where p1: "parse_group st g1 = Inr st1" and e1: "extends (root_dict st) (root_dict st1)"
    using parse_group_total [of st g1] by blast
  obtain st2 where p2: "parse_groups st1 gs = Inr st2" and e2: "extends (root_dict st1) (root_dict st2)"
    using parse_groups_total [of st1 gs] by blast
  let ?st3 = "\<lparr>groups = groups st2 @ [group_view al2 db2 cx2],
      anchor_dict = (anchor_dict st2)(pal_anchor (parse_anchor_line al2) \<mapsto> group_view al2 db2 cx2),
      root_dict = snd (foldl block_step (group_view al2 [] cx2, root_dict st2) db2)\<rparr>"
  have p3: "parse_group st2 g2 = Inr ?st3" by (rule parse_group_eq [OF l2 s2])
  have e3: "extends (root_dict st2) (root_dict ?st3)" by (simp add: extends_blocks)
  obtain st4 where p4: "parse_groups ?st3 hs = Inr st4"
    and k4: "anchor_dict st4 (Some a) = anchor_dict ?st3 (Some a)"
    using parse_groups_other_anchor [OF o, of ?st3] by blast
  obtain st4' where p4': "parse_groups ?st3 hs = Inr st4'"
    and e4': "extends (root_dict ?st3) (root_dict st4')"
    using parse_groups_total [of ?st3 hs] by blast
  have e4: "extends (root_dict ?st3) (root_dict st4)" using p4 p4' e4' by simp
  have e14: "extends (root_dict st1) (root_dict st4)"
    by (rule extends_trans [OF e2 extends_trans [OF e3 e4]])
  have "parse_groups st1 (gs @ g2 # hs) = parse_groups st2 (g2 # hs)"
    by (rule parse_groups_append [OF p2])
  then have pg: "parse_groups st (g1 # gs @ g2 # hs) = Inr st4"
    by (simp only: parse_groups.simps p1 p3 p4 sum.case)
  have q: "query_anchor st4 a = Some (group_view al2 db2 cx2)"
    unfolding query_anchor_def k4 by (simp add: a2)
  have c: "\<forall>(r, m, dws)\<in>set db1.
      Some a \<in> set (dict_get (root_dict st4) r) \<and>
      (\<forall>dw\<in>set dws.
          Some (word dw) \<in> set (dict_get (root_dict st4) (Some (derived_word.root dw))))"
  proof (intro ballI, clarify, intro conjI ballI)
    fix r m dws
    assume b: "(r, m, dws) \<in> set db1"
    have c1: "Some a \<in> set (dict_get (root_dict st1) r) \<and>
        (\<forall>dw\<in>set dws. Some (word dw) \<in> set (dict_get (root_dict st1) (Some (derived_word.root dw))))"
      using parse_group_contributes [OF l1 s1 p1 b] unfolding a1 .
    then show "Some a \<in> set (dict_get (root_dict st4) r)"
      using extends_mem [OF e14] by blast
    fix dw
    assume "dw \<in> set dws"
    then have "Some (word dw) \<in> set (dict_get (root_dict st1) (Some (derived_word.root dw)))"
      using c1 by blast
    then show "Some (word dw) \<in> set (dict_get (root_dict st4) (Some (derived_word.root dw)))"
      by (rule extends_mem [OF e14])
  qed
  have e: "extends (root_dict st) (root_dict st4)" by (rule extends_trans [OF e1 e14])
  have t: "\<forall>s g. \<exists>s'. parse_group s g = Inr s' \<and> extends (root_dict s) (root_dict s') \<and>
         (\<forall>b. other_anchor b g \<longrightarrow> query_anchor s' b = query_anchor s b)"
  proof (intro allI)
    fix s g
    obtain s' where 1: "parse_group s g = Inr s'" and 2: "extends (root_dict s) (root_dict s')"
      using parse_group_total [of s g] by blast
    have "query_anchor s' b = query_anchor s b" if "other_anchor b g" for b
      using parse_group_other_anchor [OF that, of s] 1 by (auto simp: query_anchor_def)
    then show "\<exists>s'. parse_group s g = Inr s' \<and> extends (root_dict s) (root_dict s') \<and>
         (\<forall>b. other_anchor b g \<longrightarrow> query_anchor s' b = query_anchor s b)"
      using 1 2 by blast
  qed
  show ?thesis by (rule exI [of _ st4]) (intro conjI pg q c e t)
qed

theorem same_anchor_last_wins_witness:
  "(case parse ((''clear a'' @ [CHR 0x0A] @ ''{'' @ [CHR 0x0A] @ ''(spec): to see'' @ [CHR 0x0A] @ ''spectacle'' @ [CHR 0x0A] @ ''}'') @ [CHR 0x0A, CHR 0x0A] @ ''clear b'' @ [CHR 0x0A, CHR 0x0A] @ ''view c'') of
      Inl e \<Rightarrow> False
    | Inr st \<Rightarrow>
        map_option synonyms (query_anchor st ''clear'') = Some [''b''] \<and>
        map_option roots (query_anchor st ''clear'') = Some [] \<and>
        Some ''clear'' \<in> set (dict_get (root_dict st) (Some ''spec'')) \<and>
        Some ''spectacle'' \<in> set (dict_get (root_dict st) (Some ''spec'')))"
proof -
  let ?g1 = "''clear a'' @ [CHR 0x0A] @ ''{'' @ [CHR 0x0A] @ ''(spec): to see'' @ [CHR 0x0A] @ ''spectacle'' @ [CHR 0x0A] @ ''}''"
  let ?db = "[(Some ''spec'', Some ''to see'', [\<lparr>word = ''spectacle'', root = ''spec''\<rparr>])]"
  have o: "\<forall>h\<in>set [''view c'']. other_anchor ''clear'' h"
    by (simp add: other_anchor_def clear_lines clear_anchor)
  obtain st' where p: "parse_groups init (?g1 # [] @ ''clear b'' # [''view c'']) = Inr st'"
    and q: "query_anchor st' ''clear'' = Some (group_view ''clear b'' [] [])"
    and c: "\<forall>(r, m, dws)\<in>set ?db.
          Some ''clear'' \<in> set (dict_get (root_dict st') r) \<and>
          (\<forall>dw\<in>set dws.
              Some (word dw) \<in> set (dict_get (root_dict st') (Some (derived_word.root dw))))"
    using same_anchor_last_wins [OF clear_lines(1,2) clear_anchor(1,2) clear_blocks o, of init "[]"]
    by blast
  have pg: "parse ((''clear a'' @ [CHR 0x0A] @ ''{'' @ [CHR 0x0A] @ ''(spec): to see'' @ [CHR 0x0A] @ ''spectacle'' @ [CHR 0x0A] @ ''}'') @ [CHR 0x0A, CHR 0x0A] @ ''clear b'' @ [CHR 0x0A, CHR 0x0A] @ ''view c'') = Inr st'"
    unfolding parse_def clear_split using p by simp
  have 1: "map_option synonyms (query_anchor st' ''clear'') = Some [''b'']"
    unfolding q by (simp add: group_view_def clear_anchor)
  have 2: "map_option roots (query_anchor st' ''clear'') = Some []"
    unfolding q by (simp add: group_view_def)
  have 3: "Some ''clear'' \<in> set (dict_get (root_dict st') (Some ''spec''))"
    and 4: "Some ''spectacle'' \<in> set (dict_get (root_dict st') (Some ''spec''))"
    using c by simp_all
  show ?thesis unfolding pg using 1 2 3 4 by simp
qed

end
